theory Spec2Isabelle
  imports Complex_Main
begin

section \<open>The bounded-time poller of \<open>app_integrations/apps/app_base.py\<close>\<close>

text \<open>
  The class \<open>AppIntegration\<close> drives a polling loop: \<open>gather\<close> initialises the run,
  calls \<open>_gather\<close> until the projected cost of another poll no longer fits the time that
  remains or the subclass has no more data, and finalises. The subclass methods
  (\<open>required_auth_keys\<close>, \<open>_gather_logs\<close>, \<open>_sleep_seconds\<close>), the \<open>Batcher\<close> and the clock
  are outside the class; they enter the model as parameters. Log messages change no
  state and are left out.

  Private names of the source lose their leading underscore: \<open>_sleep\<close> is \<open>sleep\<close>,
  \<open>_initialize\<close> is \<open>initialize\<close>, \<open>_validate_auth\<close> is \<open>validate_auth\<close>, \<open>_finalize\<close> is
  \<open>finalize\<close>. The protected \<open>_gather\<close> is \<open>gather_protected\<close>, the public \<open>gather\<close> keeps
  its name, and the attribute \<open>self._last_timestamp\<close> is \<open>self_last_timestamp\<close>, to keep it
  apart from the property \<open>last_timestamp\<close> of the configuration.
\<close>

subsection \<open>Python's \<open>float\<close> and \<open>Decimal\<close>\<close>

text \<open>
  The timing code mixes \<open>float\<close> (IEEE 754 binary64, round to nearest, ties to even) and
  \<open>Decimal\<close> (default context: 28 significant digits, \<open>ROUND_HALF_EVEN\<close>). A finite value
  of either type is a rational number; an operation is the exact operation followed by
  the rounding of its result type. \<open>to_float\<close> covers the normal and subnormal range of
  binary64; magnitudes of \<open>2 ^ 1024\<close> and more, where Python gives \<open>inf\<close> or raises
  \<open>OverflowError\<close>, are outside the model.
\<close>

definition round_half_even :: "rat \<Rightarrow> int" where
  "round_half_even q =
     (let f = \<lfloor>q\<rfloor>; r = q - of_int f
      in if r < 1 / 2 then f
         else if 1 / 2 < r then f + 1
         else if even f then f else f + 1)"

text \<open>\<open>digits b n\<close> is the number of digits of \<open>n\<close> in base \<open>b\<close>.\<close>

function digits :: "int \<Rightarrow> int \<Rightarrow> int" where
  "digits b n = (if 0 < n \<and> 1 < b then digits b (n div b) + 1 else 0)"
  by pat_completeness auto
termination
  by (relation "measure (\<lambda>(b, n). nat n)") (auto intro: int_div_less_self)

declare digits.simps [simp del]

text \<open>\<open>ilog b q\<close> is the exponent \<open>e\<close> with \<open>b ^ e \<le> \<bar>q\<bar> < b ^ (e + 1)\<close>, for \<open>q \<noteq> 0\<close>.\<close>

definition ilog :: "int \<Rightarrow> rat \<Rightarrow> int" where
  "ilog b q =
     (let (n, d) = quotient_of q;
          e = digits b \<bar>n\<bar> - digits b d
      in if of_int b powi e \<le> \<bar>q\<bar> then e else e - 1)"

text \<open>The nearest binary64 value: 53 significant bits, least exponent \<open>-1022\<close>.\<close>

definition to_float :: "rat \<Rightarrow> rat" where
  "to_float q =
     (if q = 0 then 0
      else let e = max (ilog 2 q) (- 1022);
               ulp = 2 powi (e - 52)
           in of_int (round_half_even (q / ulp)) * ulp)"

text \<open>The nearest \<open>Decimal\<close> of 28 significant digits.\<close>

definition to_decimal28 :: "rat \<Rightarrow> rat" where
  "to_decimal28 q =
     (if q = 0 then 0
      else let quantum = 10 powi (ilog 10 q - 27)
           in of_int (round_half_even (q / quantum)) * quantum)"

text \<open>
  \<open>Decimal(x)\<close> of a float is exact, so only the product rounds; \<open>float(d)\<close> of a
  \<open>Decimal\<close> rounds to binary64; an \<open>int\<close> operand of a float operation is converted
  first.
\<close>

definition decimal_mul :: "rat \<Rightarrow> rat \<Rightarrow> rat" where
  "decimal_mul x y = to_decimal28 (x * y)"

definition float_add :: "rat \<Rightarrow> rat \<Rightarrow> rat" where
  "float_add x y = to_float (x + y)"

definition float_div :: "rat \<Rightarrow> rat \<Rightarrow> rat" where
  "float_div x y = to_float (x / y)"

definition float_of_int :: "int \<Rightarrow> rat" where
  "float_of_int n = to_float (of_int n)"

subsection \<open>Data\<close>

type_synonym log = string

text \<open>
  Modelled from the spec: \<open>AppConfig\<close> (module \<open>app_integrations.config\<close>) is not among
  the sources. The spec's JobConfig holds a credential map, the downstream target, a
  run status out of idle, running, succeeded and failed, the resumption watermark and
  the watermark seen when the run started. \<open>app_base.py\<close> reads the configuration as a
  dictionary (\<open>not self._config\<close>, \<open>'auth' in self._config\<close>, \<open>self._config['auth']\<close>,
  \<open>self._config['function_name']\<close>) and through the properties \<open>is_running\<close>,
  \<open>last_timestamp\<close> and \<open>start_last_timestamp\<close>.
\<close>

datatype status = Idle | Running | Succeeded | Failed

datatype config_value = Str string | Dict "(string \<times> string) list"

record app_config =
  items :: "(string \<times> config_value) list"
  current_state :: status
  last_timestamp :: int
  start_last_timestamp :: int

text \<open>Modelled from the spec: the status reads and writes of the absent \<open>AppConfig\<close>.\<close>

definition is_running :: "app_config \<Rightarrow> bool" where
  "is_running c = (current_state c = Running)"

definition mark_running :: "app_config \<Rightarrow> app_config" where
  "mark_running c = c\<lparr>current_state := Running\<rparr>"

definition mark_success :: "app_config \<Rightarrow> app_config" where
  "mark_success c = c\<lparr>current_state := Succeeded\<rparr>"

text \<open>
  What the run does to the world outside the object, in program order: the blocking
  sleep, the call of the subclass's \<open>_gather_logs\<close>, the call of \<open>Batcher.send_logs\<close>
  with its target, its logs and how it ended, the writes to the configuration store,
  and the query of the remaining execution time.
\<close>

datatype send_outcome = SendRaises | SendReturns bool

datatype event =
    Sleep nat
  | Fetch
  | Deliver config_value "log list" send_outcome
  | SaveTimestamp int
  | MarkRunning
  | MarkSuccess
  | QueryRemaining

datatype config_error = ConfigIsEmpty | AuthIsEmpty | MissingKeys "string set"

datatype error =
    AppIntegrationConfigError config_error
  | KeyError string
  | GatherLogsError
  | SendLogsError

record app_integration =
  config :: app_config
  gathered_log_count :: nat
  more_to_poll :: bool
  poll_count :: nat
  self_last_timestamp :: int
  trace :: "event list"

text \<open>\<open>__init__\<close>: a fresh object around a loaded configuration.\<close>

definition app_init :: "app_config \<Rightarrow> app_integration" where
  "app_init c =
     \<lparr>config = c, gathered_log_count = 0, more_to_poll = False, poll_count = 0,
      self_last_timestamp = 0, trace = []\<rparr>"

text \<open>
  The subclass: the keys of the dictionary \<open>required_auth_keys()\<close> returns, and the
  number of seconds \<open>_sleep_seconds()\<close> returns (a count of seconds, never negative).
\<close>

record adapter =
  required_auth_keys :: "string list"
  sleep_seconds :: nat

text \<open>
  One poll as the outside world answers it. \<open>_gather_logs\<close> either raises or returns
  the logs (\<open>None\<close> for the \<open>False\<close> it returns when polling failed), and on the way may
  assign \<open>self._last_timestamp\<close> and \<open>self._more_to_poll\<close> (a call that raises ends
  the run, and what it assigned before is not looked at again); \<open>send_logs\<close> raises or returns
  a value that tells whether the batch was accepted; \<open>timeit\<close> is the float that
  \<open>timeit(do_gather, number=1)\<close> measures; \<open>remaining_ms\<close> is what the host reports when
  asked after the poll.
\<close>

datatype fetch_outcome =
    FetchRaises
  | FetchReturns "log list option" "int option" "bool option"

record poll_env =
  gather_logs :: fetch_outcome
  send_logs :: send_outcome
  timeit :: rat
  remaining_ms :: int

subsection \<open>Operations\<close>

text \<open>\<open>set(d)\<close> of a dictionary is its keys; of a string, its characters.\<close>

fun key_set :: "config_value \<Rightarrow> string set" where
  "key_set (Dict kvs) = set (map fst kvs)"
| "key_set (Str s) = set (map (\<lambda>ch. [ch]) s)"

definition validate_auth :: "adapter \<Rightarrow> app_config \<Rightarrow> error + unit" where
  "validate_auth ad c =
     (if items c = [] then Inl (AppIntegrationConfigError ConfigIsEmpty)
      else case map_of (items c) ''auth'' of
             None \<Rightarrow> Inl (AppIntegrationConfigError AuthIsEmpty)
           | Some auth \<Rightarrow>
               let required_keys = set (required_auth_keys ad);
                   auth_key_diff = required_keys - key_set auth
               in if auth_key_diff = {} then Inr ()
                  else Inl (AppIntegrationConfigError (MissingKeys auth_key_diff)))"

definition sleep :: "adapter \<Rightarrow> app_integration \<Rightarrow> app_integration" where
  "sleep ad a =
     (if poll_count a = 0 then a
      else a\<lparr>trace := trace a @ [Sleep (sleep_seconds ad)]\<rparr>)"

definition initialize :: "adapter \<Rightarrow> app_integration \<Rightarrow> (error + bool) \<times> app_integration" where
  "initialize ad a =
     (if is_running (config a) then (Inr False, a)
      else case validate_auth ad (config a) of
             Inl e \<Rightarrow> (Inl e, a)
           | Inr _ \<Rightarrow>
               let a1 = a\<lparr>self_last_timestamp := last_timestamp (config a)\<rparr>;
                   a2 = a1\<lparr>config := mark_running (config a1),
                           trace := trace a1 @ [MarkRunning]\<rparr>
               in (Inr True, a2))"

definition finalize :: "app_integration \<Rightarrow> app_integration" where
  "finalize a =
     (let a1 = a\<lparr>config := mark_success (config a), trace := trace a @ [MarkSuccess]\<rparr>
      in a1\<lparr>config := (config a1)\<lparr>last_timestamp := self_last_timestamp a1\<rparr>,
             trace := trace a1 @ [SaveTimestamp (self_last_timestamp a1)]\<rparr>)"

definition assign :: "'a option \<Rightarrow> 'a \<Rightarrow> 'a" where
  "assign new old = (case new of None \<Rightarrow> old | Some v \<Rightarrow> v)"

text \<open>
  The scoped \<open>do_gather\<close> of \<open>_gather\<close>. \<open>not logs\<close> holds of \<open>False\<close> and of the empty
  list. The arguments of \<open>send_logs\<close> are evaluated before the call, so a configuration
  without \<open>'function_name'\<close> raises \<open>KeyError\<close> and nothing is sent. What \<open>send_logs\<close>
  returns is not looked at.
\<close>

definition do_gather :: "poll_env \<Rightarrow> app_integration \<Rightarrow> (error + unit) \<times> app_integration" where
  "do_gather p a =
     (case gather_logs p of
        FetchRaises \<Rightarrow> (Inl GatherLogsError, a\<lparr>trace := trace a @ [Fetch]\<rparr>)
      | FetchReturns logs ts flag \<Rightarrow>
          let a1 = a\<lparr>self_last_timestamp := assign ts (self_last_timestamp a),
                      more_to_poll := assign flag (more_to_poll a),
                      trace := trace a @ [Fetch]\<rparr>
          in case logs of
               None \<Rightarrow> (Inr (), a1)
             | Some ls \<Rightarrow>
                 if ls = [] then (Inr (), a1)
                 else
                   let a2 = a1\<lparr>gathered_log_count := gathered_log_count a1 + length ls\<rparr>
                   in case map_of (items (config a2)) ''function_name'' of
                        None \<Rightarrow> (Inl (KeyError ''function_name''), a2)
                      | Some fn \<Rightarrow>
                          let a3 = a2\<lparr>trace := trace a2 @ [Deliver fn ls (send_logs p)]\<rparr>
                          in case send_logs p of
                               SendRaises \<Rightarrow> (Inl SendLogsError, a3)
                             | SendReturns _ \<Rightarrow>
                                 let a4 = a3\<lparr>config := (config a3)
                                               \<lparr>last_timestamp := self_last_timestamp a3\<rparr>,
                                             trace := trace a3 @
                                               [SaveTimestamp (self_last_timestamp a3)]\<rparr>
                                 in (Inr (), a4\<lparr>poll_count := poll_count a4 + 1\<rparr>))"

text \<open>The class constant \<open>_POLL_BUFFER_MULTIPLIER = 1.2\<close>, a float literal.\<close>

definition POLL_BUFFER_MULTIPLIER :: rat where
  "POLL_BUFFER_MULTIPLIER = to_float (6 / 5)"

definition gather_protected ::
  "adapter \<Rightarrow> poll_env \<Rightarrow> app_integration \<Rightarrow> (error + rat) \<times> app_integration" where
  "gather_protected ad p a =
     (case do_gather p (sleep ad a) of
        (Inl e, a1) \<Rightarrow> (Inl e, a1)
      | (Inr _, a1) \<Rightarrow>
          let exec_time = timeit p
          in (Inr (to_float (decimal_mul exec_time POLL_BUFFER_MULTIPLIER)), a1))"

text \<open>
  The loop condition of \<open>gather\<close>:
  \<open>self._gather() + self._sleep_seconds() < self._config.remaining_ms() / 1000.0\<close>,
  for the value \<open>g\<close> that \<open>_gather\<close> returned.
\<close>

definition projected_cost :: "adapter \<Rightarrow> rat \<Rightarrow> rat" where
  "projected_cost ad g = float_add g (float_of_int (int (sleep_seconds ad)))"

definition remaining_seconds :: "poll_env \<Rightarrow> rat" where
  "remaining_seconds p = float_div (float_of_int (remaining_ms p)) 1000"

text \<open>
  The \<open>while\<close> loop, one list element for each poll. The loop has no bound of its own:
  on a list that ends while the loop would poll again the result is \<open>None\<close>.
\<close>

fun gather_loop ::
  "adapter \<Rightarrow> poll_env list \<Rightarrow> app_integration \<Rightarrow> ((error + unit) \<times> app_integration) option" where
  "gather_loop ad [] a = None"
| "gather_loop ad (p # ps) a =
     (case gather_protected ad p a of
        (Inl e, a1) \<Rightarrow> Some (Inl e, a1)
      | (Inr g, a1) \<Rightarrow>
          let a2 = a1\<lparr>trace := trace a1 @ [QueryRemaining]\<rparr>
          in if projected_cost ad g < remaining_seconds p
             then if \<not> more_to_poll a2 then Some (Inr (), a2)
                  else gather_loop ad ps (a2\<lparr>more_to_poll := \<not> more_to_poll a2\<rparr>)
             else Some (Inr (), a2))"

definition gather ::
  "adapter \<Rightarrow> poll_env list \<Rightarrow> app_integration \<Rightarrow> ((error + unit) \<times> app_integration) option" where
  "gather ad ps a =
     (case initialize ad a of
        (Inl e, a1) \<Rightarrow> Some (Inl e, a1)
      | (Inr started, a1) \<Rightarrow>
          if \<not> started then Some (Inr (), a1)
          else case gather_loop ad ps a1 of
                 None \<Rightarrow> None
               | Some (Inl e, a2) \<Rightarrow> Some (Inl e, a2)
               | Some (Inr _, a2) \<Rightarrow> Some (Inr (), finalize a2))"

subsection \<open>Notions used in the statements\<close>

text \<open>
  A poll re-asserts the continuation flag when the subclass's \<open>_gather_logs\<close> returns
  having set \<open>self._more_to_poll\<close> to \<open>True\<close>. A poll fits the budget when the loop
  condition holds after it. \<open>fetches\<close> counts the calls of \<open>_gather_logs\<close> in a trace.
\<close>

definition asserts_more :: "poll_env \<Rightarrow> bool" where
  "asserts_more p =
     (case gather_logs p of
        FetchRaises \<Rightarrow> False
      | FetchReturns logs ts flag \<Rightarrow> flag = Some True)"

definition fits_budget :: "adapter \<Rightarrow> poll_env \<Rightarrow> bool" where
  "fits_budget ad p =
     (projected_cost ad (to_float (decimal_mul (timeit p) POLL_BUFFER_MULTIPLIER))
        < remaining_seconds p)"

definition fetches :: "event list \<Rightarrow> nat" where
  "fetches evs = length (filter (\<lambda>ev. ev = Fetch) evs)"

text \<open>
  Two conditions on what the subclass does to \<open>self._last_timestamp\<close>, which the base
  class never checks: it assigns no value below \<open>w\<close>, and it assigns a value only when it
  returns logs.
\<close>

definition keeps_watermark_above :: "int \<Rightarrow> poll_env \<Rightarrow> bool" where
  "keeps_watermark_above w p =
     (case gather_logs p of
        FetchRaises \<Rightarrow> True
      | FetchReturns logs ts flag \<Rightarrow> (case ts of None \<Rightarrow> True | Some t \<Rightarrow> w \<le> t))"

definition moves_watermark_only_with_logs :: "poll_env \<Rightarrow> bool" where
  "moves_watermark_only_with_logs p =
     (case gather_logs p of
        FetchRaises \<Rightarrow> True
      | FetchReturns logs ts flag \<Rightarrow>
          (case ts of None \<Rightarrow> True | Some t \<Rightarrow> logs \<noteq> None \<and> logs \<noteq> Some []))"

subsection \<open>Example inputs\<close>

text \<open>
  A subclass that requires the keys \<open>api_key\<close> and \<open>subdomain\<close> and asks for five seconds
  between polls, a configuration around a given status and credential map, and a poll
  from its four answers.
\<close>

definition example_adapter :: adapter where
  "example_adapter = \<lparr>required_auth_keys = [''api_key'', ''subdomain''], sleep_seconds = 5\<rparr>"

definition example_config :: "status \<Rightarrow> (string \<times> string) list \<Rightarrow> app_config" where
  "example_config st auth =
     \<lparr>items = [(''type'', Str ''demo_events''), (''function_name'', Str ''rule_processor''),
               (''auth'', Dict auth)],
      current_state = st, last_timestamp = 100, start_last_timestamp = 100\<rparr>"

definition full_auth :: "(string \<times> string) list" where
  "full_auth = [(''api_key'', ''k''), (''subdomain'', ''s''), (''extra'', ''x'')]"

definition example_poll :: "fetch_outcome \<Rightarrow> send_outcome \<Rightarrow> rat \<Rightarrow> int \<Rightarrow> poll_env" where
  "example_poll f s t r = \<lparr>gather_logs = f, send_logs = s, timeit = t, remaining_ms = r\<rparr>"

text \<open>
  The object after \<open>_initialize\<close> on the idle example job; polls that return one log and
  leave the flag alone, that return one log and ask for more, that find the time used
  up, and that take the time of the spec's example (0.01 seconds measured, five seconds
  left); and the states the loop reaches with them.
\<close>

definition started_app :: app_integration where
  "started_app =
     \<lparr>config = example_config Running full_auth, gathered_log_count = 0, more_to_poll = False,
      poll_count = 0, self_last_timestamp = 100, trace = [MarkRunning]\<rparr>"

definition last_page :: poll_env where
  "last_page = example_poll (FetchReturns (Some [''r1'']) (Some 200) None) (SendReturns True) 0 60000"

definition full_page :: poll_env where
  "full_page =
     example_poll (FetchReturns (Some [''r0'']) (Some 150) (Some True)) (SendReturns True) 0 60000"

definition after_last_page :: app_integration where
  "after_last_page =
     started_app\<lparr>config := (example_config Running full_auth)\<lparr>last_timestamp := 200\<rparr>,
       gathered_log_count := 1, poll_count := 1, self_last_timestamp := 200,
       trace := [MarkRunning, Fetch, Deliver (Str ''rule_processor'') [''r1''] (SendReturns True),
                 SaveTimestamp 200, QueryRemaining]\<rparr>"

definition after_two_pages :: app_integration where
  "after_two_pages =
     started_app\<lparr>config := (example_config Running full_auth)\<lparr>last_timestamp := 200\<rparr>,
       gathered_log_count := 2, poll_count := 2, self_last_timestamp := 200,
       trace := [MarkRunning, Fetch, Deliver (Str ''rule_processor'') [''r0''] (SendReturns True),
                 SaveTimestamp 150, QueryRemaining, Sleep 5,
                 Fetch, Deliver (Str ''rule_processor'') [''r1''] (SendReturns True),
                 SaveTimestamp 200, QueryRemaining]\<rparr>"

definition no_time_left :: poll_env where
  "no_time_left =
     example_poll (FetchReturns (Some [''r1'']) (Some 200) (Some True)) (SendReturns True) 0 (- 5)"

definition spec_timing :: poll_env where
  "spec_timing =
     example_poll (FetchReturns (Some [''r1'']) (Some 200) (Some True)) (SendReturns True)
       (to_float (1 / 100)) 5000"

definition after_spec_timing :: app_integration where
  "after_spec_timing =
     started_app\<lparr>config := (example_config Running full_auth)\<lparr>last_timestamp := 200\<rparr>,
       gathered_log_count := 1, more_to_poll := True, poll_count := 1, self_last_timestamp := 200,
       trace := [MarkRunning, Fetch, Deliver (Str ''rule_processor'') [''r1''] (SendReturns True),
                 SaveTimestamp 200]\<rparr>"

section \<open>Facts about the operations\<close>

lemmas example_defs =
  example_adapter_def example_config_def full_auth_def example_poll_def app_init_def

lemma initialize_started:
  assumes "initialize ad a = (Inr True, a1)"
  shows "\<not> is_running (config a) \<and> validate_auth ad (config a) = Inr ()
       \<and> a1 = a\<lparr>self_last_timestamp := last_timestamp (config a),
                  config := mark_running (config a),
                  trace := trace a @ [MarkRunning]\<rparr>"
  using assms by (auto simp: initialize_def Let_def split: if_splits sum.splits)

lemma initialize_example:
  "initialize example_adapter (app_init (example_config Idle full_auth)) = (Inr True, started_app)"
  by (simp add: initialize_def validate_auth_def is_running_def mark_running_def Let_def
        started_app_def example_defs)

subsection \<open>One poll\<close>

lemma do_gather_cases:
  assumes "do_gather p a = (r, a')"
  shows "(\<exists>evs. trace a' = trace a @ evs \<and> (\<forall>t. SaveTimestamp t \<notin> set evs) \<and> config a' = config a)
       \<or> (\<exists>fn ls b. r = Inr () \<and> send_logs p = SendReturns b
            \<and> trace a' = trace a @ [Fetch, Deliver fn ls (SendReturns b),
                                      SaveTimestamp (self_last_timestamp a')]
            \<and> config a' = (config a)\<lparr>last_timestamp := self_last_timestamp a'\<rparr>)"
  using assms
  by (auto simp: do_gather_def Let_def
           split: fetch_outcome.splits option.splits if_splits send_outcome.splits)

lemma do_gather_send_raises:
  assumes "do_gather p a = (r, a')" and "send_logs p = SendRaises"
  shows "config a' = config a"
  using assms
  by (auto simp: do_gather_def Let_def
           split: fetch_outcome.splits option.splits if_splits send_outcome.splits)

lemma do_gather_send_returns:
  assumes "do_gather p a = (r, a')" and "gather_logs p = FetchReturns (Some ls) ts flag"
    and "ls \<noteq> []" and "map_of (items (config a)) ''function_name'' = Some fn"
    and "send_logs p = SendReturns b"
  shows "r = Inr () \<and> last_timestamp (config a') = assign ts (self_last_timestamp a)"
  using assms by (auto simp: do_gather_def Let_def)

lemma do_gather_effect:
  assumes "do_gather p a = (r, a')"
  shows "(\<exists>evs. trace a' = trace a @ Fetch # evs
            \<and> Fetch \<notin> set evs \<and> QueryRemaining \<notin> set evs \<and> MarkSuccess \<notin> set evs
            \<and> MarkRunning \<notin> set evs \<and> (\<forall>n. Sleep n \<notin> set evs))
       \<and> current_state (config a') = current_state (config a)
       \<and> items (config a') = items (config a)
       \<and> gathered_log_count a \<le> gathered_log_count a'"
  using assms
  by (auto simp: do_gather_def Let_def
           split: fetch_outcome.splits option.splits if_splits send_outcome.splits)

lemma do_gather_flag:
  assumes "do_gather p a = (Inr u, a')"
  shows "\<exists>ls ts flag. gather_logs p = FetchReturns ls ts flag
          \<and> more_to_poll a' = assign flag (more_to_poll a)"
  using assms
  by (auto simp: do_gather_def Let_def
           split: fetch_outcome.splits option.splits if_splits send_outcome.splits)

lemma do_gather_timestamp:
  assumes "do_gather p a = (Inr u, a')"
  shows "\<exists>ls ts flag. gather_logs p = FetchReturns ls ts flag
          \<and> self_last_timestamp a' = assign ts (self_last_timestamp a)
          \<and> (gathered_log_count a' = gathered_log_count a \<longrightarrow> ls = None \<or> ls = Some [])"
  using assms
  by (auto simp: do_gather_def Let_def
           split: fetch_outcome.splits option.splits if_splits send_outcome.splits)

lemma do_gather_full_cycle:
  assumes "gather_logs p = FetchReturns (Some ls) ts flag" and "ls \<noteq> []"
    and "map_of (items (config a)) ''function_name'' = Some fn"
    and "send_logs p = SendReturns b"
  shows "\<exists>a'. do_gather p a = (Inr (), a')
          \<and> trace a' = trace a @ [Fetch, Deliver fn ls (SendReturns b),
                                    SaveTimestamp (assign ts (self_last_timestamp a))]"
  using assms by (simp add: do_gather_def Let_def)

lemma do_gather_ignores_remaining:
  "do_gather (p\<lparr>remaining_ms := m\<rparr>) a = do_gather p a"
  by (simp add: do_gather_def Let_def
        split: fetch_outcome.splits option.splits send_outcome.splits)

lemma sleep_fields [simp]:
  "config (sleep ad a) = config a"
  "gathered_log_count (sleep ad a) = gathered_log_count a"
  "more_to_poll (sleep ad a) = more_to_poll a"
  "poll_count (sleep ad a) = poll_count a"
  "self_last_timestamp (sleep ad a) = self_last_timestamp a"
  by (simp_all add: sleep_def)

lemma sleep_trace:
  "trace (sleep ad a) = trace a @ (if poll_count a = 0 then [] else [Sleep (sleep_seconds ad)])"
  by (simp add: sleep_def)

lemma gather_protected_raises:
  "(gather_protected ad p a = (Inl e, a1)) = (do_gather p (sleep ad a) = (Inl e, a1))"
  by (auto simp: gather_protected_def Let_def split: prod.splits sum.splits)

lemma gather_protected_returns:
  "(gather_protected ad p a = (Inr g, a1)) =
     (do_gather p (sleep ad a) = (Inr (), a1)
      \<and> g = to_float (decimal_mul (timeit p) POLL_BUFFER_MULTIPLIER))"
  by (auto simp: gather_protected_def Let_def split: prod.splits sum.splits)

lemma gather_protected_do_gather:
  assumes "gather_protected ad p a = (r, a1)"
  shows "\<exists>r'. do_gather p (sleep ad a) = (r', a1) \<and> (\<forall>e. (r = Inl e) = (r' = Inl e))"
  using assms by (auto simp: gather_protected_def Let_def split: prod.splits sum.splits)

lemma gather_protected_effect:
  assumes "gather_protected ad p a = (r, a')"
  shows "(\<exists>evs. trace a' = trace a @ evs \<and> Fetch \<in> set evs \<and> QueryRemaining \<notin> set evs
             \<and> MarkSuccess \<notin> set evs \<and> MarkRunning \<notin> set evs)
       \<and> current_state (config a') = current_state (config a)
       \<and> gathered_log_count a \<le> gathered_log_count a'"
proof -
  from assms obtain r' where d: "do_gather p (sleep ad a) = (r', a')"
    using gather_protected_do_gather by blast
  from do_gather_effect [OF d] obtain evs where
    t: "trace a' = trace (sleep ad a) @ Fetch # evs" and
    n: "QueryRemaining \<notin> set evs" "MarkSuccess \<notin> set evs" "MarkRunning \<notin> set evs" and
    c: "current_state (config a') = current_state (config a)"
       "gathered_log_count a \<le> gathered_log_count a'"
    by auto
  from t have "trace a' = trace a @ ((if poll_count a = 0 then [] else [Sleep (sleep_seconds ad)]) @ Fetch # evs)"
    by (simp add: sleep_trace)
  with n c show ?thesis by auto
qed

lemma gather_protected_flag:
  assumes "gather_protected ad p a = (Inr g, a1)" and "\<not> more_to_poll a"
  shows "more_to_poll a1 = asserts_more p"
proof -
  from assms(1) have "do_gather p (sleep ad a) = (Inr (), a1)"
    by (simp add: gather_protected_returns)
  from do_gather_flag [OF this] obtain ls ts flag where
    f: "gather_logs p = FetchReturns ls ts flag" and
    m: "more_to_poll a1 = assign flag (more_to_poll a)"
    by auto
  show ?thesis
  proof (cases flag)
    case None
    with f m assms(2) show ?thesis by (simp add: asserts_more_def assign_def)
  next
    case (Some b)
    with f m show ?thesis by (simp add: asserts_more_def assign_def)
  qed
qed

lemma gather_protected_timestamp:
  assumes "gather_protected ad p a = (Inr g, a1)"
  shows "(keeps_watermark_above w p \<and> w \<le> self_last_timestamp a \<longrightarrow> w \<le> self_last_timestamp a1)
       \<and> (moves_watermark_only_with_logs p \<and> gathered_log_count a1 = gathered_log_count a \<longrightarrow>
            self_last_timestamp a1 = self_last_timestamp a)"
proof -
  from assms have "do_gather p (sleep ad a) = (Inr (), a1)"
    by (simp add: gather_protected_returns)
  from do_gather_timestamp [OF this] obtain ls ts flag where
    f: "gather_logs p = FetchReturns ls ts flag" and
    t: "self_last_timestamp a1 = assign ts (self_last_timestamp a)" and
    c: "gathered_log_count a1 = gathered_log_count a \<longrightarrow> ls = None \<or> ls = Some []"
    by auto
  show ?thesis
  proof (cases ts)
    case None
    with t show ?thesis by (simp add: assign_def)
  next
    case (Some t')
    with f t c show ?thesis
      by (auto simp: assign_def keeps_watermark_above_def moves_watermark_only_with_logs_def)
  qed
qed

lemma gather_protected_ignores_remaining:
  "gather_protected ad (p\<lparr>remaining_ms := m\<rparr>) a = gather_protected ad p a"
  by (simp add: gather_protected_def do_gather_ignores_remaining Let_def
        split: prod.splits sum.splits)

lemma fetches_simps [simp]:
  "fetches [] = 0"
  "fetches (Fetch # evs) = Suc (fetches evs)"
  "ev \<noteq> Fetch \<Longrightarrow> fetches (ev # evs) = fetches evs"
  "fetches (evs @ evs') = fetches evs + fetches evs'"
  by (simp_all add: fetches_def)

lemma fetches_none: "Fetch \<notin> set evs \<Longrightarrow> fetches evs = 0"
  by (induction evs) (auto simp: fetches_def)

lemma gather_protected_one_fetch:
  assumes "gather_protected ad p a = (r, a')"
  shows "\<exists>evs. trace a' = trace a @ evs \<and> fetches evs = 1 \<and> QueryRemaining \<notin> set evs"
proof -
  from assms obtain r' where d: "do_gather p (sleep ad a) = (r', a')"
    using gather_protected_do_gather by blast
  from do_gather_effect [OF d] obtain evs where
    t: "trace a' = trace (sleep ad a) @ Fetch # evs" and
    n: "Fetch \<notin> set evs" "QueryRemaining \<notin> set evs"
    by auto
  let ?sl = "if poll_count a = 0 then [] else [Sleep (sleep_seconds ad)]"
  from t have "trace a' = trace a @ (?sl @ Fetch # evs)"
    by (simp add: sleep_trace)
  moreover from n have "fetches (?sl @ Fetch # evs) = 1" by (simp add: fetches_none)
  moreover from n have "QueryRemaining \<notin> set (?sl @ Fetch # evs)" by simp
  ultimately show ?thesis by blast
qed

subsection \<open>The loop\<close>

lemma gather_loop_Cons_cases:
  assumes "gather_loop ad (p # ps) a = Some (r, a')"
  shows "(\<exists>e. r = Inl e \<and> gather_protected ad p a = (Inl e, a'))
       \<or> (\<exists>g a1. gather_protected ad p a = (Inr g, a1) \<and> r = Inr ()
             \<and> a' = a1\<lparr>trace := trace a1 @ [QueryRemaining]\<rparr>
             \<and> (\<not> projected_cost ad g < remaining_seconds p \<or> \<not> more_to_poll a1))
       \<or> (\<exists>g a1. gather_protected ad p a = (Inr g, a1)
             \<and> projected_cost ad g < remaining_seconds p \<and> more_to_poll a1
             \<and> gather_loop ad ps (a1\<lparr>trace := trace a1 @ [QueryRemaining],
                                      more_to_poll := False\<rparr>) = Some (r, a'))"
  using assms by (auto simp: Let_def split: prod.splits sum.splits if_splits)

lemma gather_loop_stop:
  "gather_protected ad p a = (Inr g, a1) \<Longrightarrow>
   \<not> (projected_cost ad g < remaining_seconds p \<and> more_to_poll a1) \<Longrightarrow>
   gather_loop ad (p # ps) a = Some (Inr (), a1\<lparr>trace := trace a1 @ [QueryRemaining]\<rparr>)"
  by (auto simp: Let_def)

lemma gather_loop_continue:
  "gather_protected ad p a = (Inr g, a1) \<Longrightarrow>
   projected_cost ad g < remaining_seconds p \<Longrightarrow> more_to_poll a1 \<Longrightarrow>
   gather_loop ad (p # ps) a =
     gather_loop ad ps (a1\<lparr>trace := trace a1 @ [QueryRemaining], more_to_poll := False\<rparr>)"
  by (simp add: Let_def)

lemma gather_loop_effect:
  assumes "gather_loop ad ps a = Some (r, a')"
  shows "(\<exists>evs. trace a' = trace a @ evs \<and> MarkSuccess \<notin> set evs \<and> MarkRunning \<notin> set evs)
       \<and> current_state (config a') = current_state (config a)
       \<and> gathered_log_count a \<le> gathered_log_count a'"
  using assms
proof (induction ps arbitrary: a)
  case Nil
  then show ?case by simp
next
  case (Cons p ps)
  from gather_loop_Cons_cases [OF Cons.prems]
  consider (raised) e where "r = Inl e" "gather_protected ad p a = (Inl e, a')"
    | (stopped) g a1 where "gather_protected ad p a = (Inr g, a1)"
        "a' = a1\<lparr>trace := trace a1 @ [QueryRemaining]\<rparr>"
    | (continued) g a1 where "gather_protected ad p a = (Inr g, a1)"
        "gather_loop ad ps (a1\<lparr>trace := trace a1 @ [QueryRemaining],
                                more_to_poll := False\<rparr>) = Some (r, a')"
    by blast
  then show ?case
  proof cases
    case raised
    from gather_protected_effect [OF raised(2)] show ?thesis by auto
  next
    case stopped
    from gather_protected_effect [OF stopped(1)] stopped(2) show ?thesis by auto
  next
    case continued
    from gather_protected_effect [OF continued(1)] Cons.IH [OF continued(2)]
    show ?thesis by auto
  qed
qed

lemma gather_loop_returns:
  assumes "\<not> more_to_poll a" and "\<exists>p\<in>set ps. \<not> asserts_more p \<or> \<not> fits_budget ad p"
  shows "gather_loop ad ps a \<noteq> None"
  using assms
proof (induction ps arbitrary: a)
  case Nil
  then show ?case by simp
next
  case (Cons p ps)
  obtain r a1 where gp: "gather_protected ad p a = (r, a1)" by (cases "gather_protected ad p a")
  show ?case
  proof (cases r)
    case (Inl e)
    with gp show ?thesis by simp
  next
    case (Inr g)
    with gp have gp': "gather_protected ad p a = (Inr g, a1)" by simp
    then have g: "g = to_float (decimal_mul (timeit p) POLL_BUFFER_MULTIPLIER)"
      by (simp add: gather_protected_returns)
    have flag: "more_to_poll a1 = asserts_more p"
      using gather_protected_flag [OF gp' Cons.prems(1)] .
    show ?thesis
    proof (cases "asserts_more p \<and> fits_budget ad p")
      case True
      with Cons.prems(2) have later: "\<exists>p\<in>set ps. \<not> asserts_more p \<or> \<not> fits_budget ad p"
        by auto
      have "gather_loop ad ps (a1\<lparr>trace := trace a1 @ [QueryRemaining], more_to_poll := False\<rparr>)
              \<noteq> None"
        by (rule Cons.IH) (use later in simp_all)
      moreover from True flag g have "projected_cost ad g < remaining_seconds p" "more_to_poll a1"
        by (simp_all add: fits_budget_def)
      ultimately show ?thesis using gather_loop_continue [OF gp'] by simp
    next
      case False
      with flag g have "\<not> (projected_cost ad g < remaining_seconds p \<and> more_to_poll a1)"
        by (auto simp: fits_budget_def)
      from gather_loop_stop [OF gp' this] show ?thesis by simp
    qed
  qed
qed

lemma gather_loop_first_poll:
  assumes "gather_loop ad (p # ps) a = Some (r, a')" and "gather_protected ad p a = (r1, a1)"
  shows "\<exists>rest. trace a' = trace a1 @ rest"
proof -
  from gather_loop_Cons_cases [OF assms(1)]
  consider (raised) e where "gather_protected ad p a = (Inl e, a')"
    | (stopped) g a2 where "gather_protected ad p a = (Inr g, a2)"
        "a' = a2\<lparr>trace := trace a2 @ [QueryRemaining]\<rparr>"
    | (continued) g a2 where "gather_protected ad p a = (Inr g, a2)"
        "gather_loop ad ps (a2\<lparr>trace := trace a2 @ [QueryRemaining],
                                more_to_poll := False\<rparr>) = Some (r, a')"
    by blast
  then show ?thesis
  proof cases
    case raised
    with assms(2) show ?thesis by simp
  next
    case stopped
    with assms(2) show ?thesis by simp
  next
    case continued
    from gather_loop_effect [OF continued(2)] obtain evs where
      "trace a' = (trace a2 @ [QueryRemaining]) @ evs" by auto
    with continued(1) assms(2) show ?thesis by simp
  qed
qed

lemma gather_loop_no_fit:
  assumes "\<not> fits_budget ad p"
  shows "gather_loop ad (p # ps) a \<noteq> None"
proof -
  obtain r a1 where gp: "gather_protected ad p a = (r, a1)" by (cases "gather_protected ad p a")
  show ?thesis
  proof (cases r)
    case (Inl e)
    with gp show ?thesis by simp
  next
    case (Inr g)
    with gp have gp': "gather_protected ad p a = (Inr g, a1)" by simp
    then have "g = to_float (decimal_mul (timeit p) POLL_BUFFER_MULTIPLIER)"
      by (simp add: gather_protected_returns)
    with assms have "\<not> (projected_cost ad g < remaining_seconds p \<and> more_to_poll a1)"
      by (simp add: fits_budget_def)
    from gather_loop_stop [OF gp' this] show ?thesis by simp
  qed
qed

lemma gather_loop_polls:
  assumes "gather_loop ad ps a = Some (r, a')" and "\<not> more_to_poll a"
  shows "\<exists>evs. trace a' = trace a @ evs \<and> 1 \<le> fetches evs \<and> fetches evs \<le> length ps
           \<and> (\<forall>i. Suc i < fetches evs \<longrightarrow> asserts_more (ps ! i) \<and> fits_budget ad (ps ! i))"
  using assms
proof (induction ps arbitrary: a)
  case Nil
  then show ?case by simp
next
  case (Cons p ps)
  from gather_loop_Cons_cases [OF Cons.prems(1)]
  consider (raised) e where "gather_protected ad p a = (Inl e, a')"
    | (stopped) g a1 where "gather_protected ad p a = (Inr g, a1)"
        "a' = a1\<lparr>trace := trace a1 @ [QueryRemaining]\<rparr>"
    | (continued) g a1 where "gather_protected ad p a = (Inr g, a1)"
        "projected_cost ad g < remaining_seconds p" "more_to_poll a1"
        "gather_loop ad ps (a1\<lparr>trace := trace a1 @ [QueryRemaining],
                                more_to_poll := False\<rparr>) = Some (r, a')"
    by blast
  then show ?case
  proof cases
    case raised
    from gather_protected_one_fetch [OF raised] obtain evs where
      "trace a' = trace a @ evs" "fetches evs = 1" by blast
    then show ?thesis by auto
  next
    case stopped
    from gather_protected_one_fetch [OF stopped(1)] obtain evs where
      "trace a1 = trace a @ evs" "fetches evs = 1" by blast
    with stopped(2) have "trace a' = trace a @ (evs @ [QueryRemaining])"
      "fetches (evs @ [QueryRemaining]) = 1" by simp_all
    then show ?thesis by (intro exI [of _ "evs @ [QueryRemaining]"]) simp
  next
    case continued
    let ?a2 = "a1\<lparr>trace := trace a1 @ [QueryRemaining], more_to_poll := False\<rparr>"
    from gather_protected_one_fetch [OF continued(1)] obtain evs1 where
      e1: "trace a1 = trace a @ evs1" "fetches evs1 = 1" by blast
    from Cons.IH [OF continued(4)] obtain evs2 where
      e2: "trace a' = trace ?a2 @ evs2" "1 \<le> fetches evs2" "fetches evs2 \<le> length ps"
        "\<forall>i. Suc i < fetches evs2 \<longrightarrow> asserts_more (ps ! i) \<and> fits_budget ad (ps ! i)"
      by auto
    have am: "asserts_more p"
      using gather_protected_flag [OF continued(1) Cons.prems(2)] continued(3) by simp
    have fb: "fits_budget ad p"
      using continued(1,2) by (simp add: gather_protected_returns fits_budget_def)
    let ?evs = "evs1 @ [QueryRemaining] @ evs2"
    have t: "trace a' = trace a @ ?evs" using e1 e2 by simp
    have n: "fetches ?evs = Suc (fetches evs2)" using e1 by simp
    have "asserts_more ((p # ps) ! i) \<and> fits_budget ad ((p # ps) ! i)"
      if "Suc i < fetches ?evs" for i
    proof (cases i)
      case 0
      with am fb show ?thesis by simp
    next
      case (Suc j)
      with that n have "Suc j < fetches evs2" by simp
      with e2(4) Suc show ?thesis by simp
    qed
    with t n e2(2,3) show ?thesis by (intro exI [of _ ?evs]) simp
  qed
qed

lemma gather_loop_timestamp_lower:
  assumes "gather_loop ad ps a = Some (Inr u, a')"
    and "\<forall>p\<in>set ps. keeps_watermark_above w p" and "w \<le> self_last_timestamp a"
  shows "w \<le> self_last_timestamp a'"
  using assms
proof (induction ps arbitrary: a)
  case Nil
  then show ?case by simp
next
  case (Cons p ps)
  from gather_loop_Cons_cases [OF Cons.prems(1)]
  consider (stopped) g a1 where "gather_protected ad p a = (Inr g, a1)"
        "a' = a1\<lparr>trace := trace a1 @ [QueryRemaining]\<rparr>"
    | (continued) g a1 where "gather_protected ad p a = (Inr g, a1)"
        "gather_loop ad ps (a1\<lparr>trace := trace a1 @ [QueryRemaining],
                                more_to_poll := False\<rparr>) = Some (Inr u, a')"
    by auto
  then show ?case
  proof cases
    case stopped
    from gather_protected_timestamp [OF stopped(1), of w] Cons.prems stopped(2)
    show ?thesis by simp
  next
    case continued
    from gather_protected_timestamp [OF continued(1), of w] Cons.prems
    have "w \<le> self_last_timestamp a1" by simp
    then have "w \<le> self_last_timestamp (a1\<lparr>trace := trace a1 @ [QueryRemaining],
                                more_to_poll := False\<rparr>)" by simp
    from Cons.IH [OF continued(2) _ this] Cons.prems(2) show ?thesis by simp
  qed
qed

lemma gather_loop_timestamp_same:
  assumes "gather_loop ad ps a = Some (Inr u, a')"
    and "\<forall>p\<in>set ps. moves_watermark_only_with_logs p"
    and "gathered_log_count a' = gathered_log_count a"
  shows "self_last_timestamp a' = self_last_timestamp a"
  using assms
proof (induction ps arbitrary: a)
  case Nil
  then show ?case by simp
next
  case (Cons p ps)
  from gather_loop_Cons_cases [OF Cons.prems(1)]
  consider (stopped) g a1 where "gather_protected ad p a = (Inr g, a1)"
        "a' = a1\<lparr>trace := trace a1 @ [QueryRemaining]\<rparr>"
    | (continued) g a1 where "gather_protected ad p a = (Inr g, a1)"
        "gather_loop ad ps (a1\<lparr>trace := trace a1 @ [QueryRemaining],
                                more_to_poll := False\<rparr>) = Some (Inr u, a')"
    by auto
  then show ?case
  proof cases
    case stopped
    from gather_protected_timestamp [OF stopped(1), of w] Cons.prems stopped(2)
    show ?thesis by simp
  next
    case continued
    let ?a2 = "a1\<lparr>trace := trace a1 @ [QueryRemaining], more_to_poll := False\<rparr>"
    from gather_protected_effect [OF continued(1)]
    have le1: "gathered_log_count a \<le> gathered_log_count a1" by simp
    from gather_loop_effect [OF continued(2)]
    have le2: "gathered_log_count a1 \<le> gathered_log_count a'" by simp
    from le1 le2 Cons.prems(3) have eq1: "gathered_log_count a1 = gathered_log_count a"
      and eq2: "gathered_log_count a' = gathered_log_count ?a2" by simp_all
    from gather_protected_timestamp [OF continued(1), of w] Cons.prems(2) eq1
    have "self_last_timestamp a1 = self_last_timestamp a" by simp
    moreover from Cons.IH [OF continued(2) _ eq2] Cons.prems(2)
    have "self_last_timestamp a' = self_last_timestamp ?a2" by simp
    ultimately show ?thesis by simp
  qed
qed

subsection \<open>Signs of rounded values\<close>

lemma round_half_even_nonneg: "0 \<le> q \<Longrightarrow> 0 \<le> round_half_even q"
  by (auto simp: round_half_even_def Let_def)

lemma round_half_even_nonpos:
  assumes "q \<le> 0" shows "round_half_even q \<le> 0"
proof (cases "q - of_int \<lfloor>q\<rfloor> < 1 / 2")
  case True
  with assms show ?thesis by (simp add: round_half_even_def Let_def)
next
  case False
  then have "of_int \<lfloor>q\<rfloor> < q" by simp
  with assms have "(of_int \<lfloor>q\<rfloor> :: rat) < 0" by linarith
  then have "\<lfloor>q\<rfloor> < 0" by simp
  then show ?thesis by (auto simp: round_half_even_def Let_def)
qed

lemma powi_pos: "0 < (b::rat) \<Longrightarrow> 0 < b powi e"
  by (simp add: power_int_def)

lemma scaled_round_nonneg:
  assumes "0 \<le> q" and "0 < u"
  shows "0 \<le> of_int (round_half_even (q / u)) * (u::rat)"
proof -
  from assms have "0 \<le> q / u" by simp
  then have "0 \<le> round_half_even (q / u)" by (rule round_half_even_nonneg)
  with assms(2) show ?thesis by simp
qed

lemma scaled_round_nonpos:
  assumes "q \<le> 0" and "0 < u"
  shows "of_int (round_half_even (q / u)) * (u::rat) \<le> 0"
proof -
  from assms have "q / u \<le> 0" by (simp add: divide_nonpos_pos)
  then have "round_half_even (q / u) \<le> 0" by (rule round_half_even_nonpos)
  with assms(2) show ?thesis by (simp add: mult_nonpos_nonneg)
qed

lemma to_float_nonneg: "0 \<le> q \<Longrightarrow> 0 \<le> to_float q"
  unfolding to_float_def Let_def by (simp add: scaled_round_nonneg powi_pos)

lemma to_float_nonpos: "q \<le> 0 \<Longrightarrow> to_float q \<le> 0"
  unfolding to_float_def Let_def by (simp add: scaled_round_nonpos powi_pos)

lemma to_decimal28_nonneg: "0 \<le> q \<Longrightarrow> 0 \<le> to_decimal28 q"
  unfolding to_decimal28_def Let_def by (simp add: scaled_round_nonneg powi_pos)

lemma projected_cost_nonneg:
  assumes "0 \<le> t"
  shows "0 \<le> projected_cost ad (to_float (decimal_mul t POLL_BUFFER_MULTIPLIER))"
proof -
  have "0 \<le> POLL_BUFFER_MULTIPLIER"
    unfolding POLL_BUFFER_MULTIPLIER_def by (rule to_float_nonneg) simp
  with assms have "0 \<le> t * POLL_BUFFER_MULTIPLIER" by simp
  then have "0 \<le> to_float (decimal_mul t POLL_BUFFER_MULTIPLIER)"
    unfolding decimal_mul_def by (intro to_float_nonneg to_decimal28_nonneg)
  moreover have "0 \<le> float_of_int (int (sleep_seconds ad))"
    unfolding float_of_int_def by (rule to_float_nonneg) simp
  ultimately show ?thesis
    unfolding projected_cost_def float_add_def by (intro to_float_nonneg) simp
qed

lemma remaining_seconds_nonpos:
  assumes "remaining_ms p \<le> 0" shows "remaining_seconds p \<le> 0"
proof -
  from assms have "float_of_int (remaining_ms p) \<le> 0"
    unfolding float_of_int_def by (intro to_float_nonpos) simp
  then have "float_of_int (remaining_ms p) / 1000 \<le> 0" by simp
  then show ?thesis
    unfolding remaining_seconds_def float_div_def by (rule to_float_nonpos)
qed

lemma no_budget_no_fit:
  "0 \<le> timeit p \<Longrightarrow> remaining_ms p \<le> 0 \<Longrightarrow> \<not> fits_budget ad p"
  using projected_cost_nonneg [of "timeit p" ad] remaining_seconds_nonpos [of p]
  by (simp add: fits_budget_def)

subsection \<open>Rounding errors\<close>

text \<open>
  \<open>digits\<close> and \<open>ilog\<close> compute what their comments say, so each rounding moves a value
  by at most half a unit in the last place: a relative \<open>2 ^ -53\<close> for a float (an
  absolute \<open>2 ^ -1075\<close> among the subnormal numbers), and a relative \<open>10 ^ -27 / 2\<close> for
  a \<open>Decimal\<close>. The projected cost for a measured time \<open>d\<close> therefore differs from the
  exact \<open>d * 1.2 + t\<close> by a relative \<open>2 ^ -49\<close> at most.
\<close>

lemma digits_pos: "0 < n \<Longrightarrow> 1 < b \<Longrightarrow> 1 \<le> digits b n"
proof (induction b n rule: digits.induct)
  case (1 b n)
  show ?case
  proof (cases "0 < n div b")
    case True
    with 1 have "1 \<le> digits b (n div b)" by simp
    with 1 show ?thesis by (subst digits.simps) simp
  next
    case False
    with 1 have "n div b = 0" by (simp add: pos_imp_zdiv_nonneg_iff order.antisym not_less)
    then have "digits b (n div b) = 0" by (subst digits.simps) simp
    with 1 show ?thesis by (subst digits.simps) simp
  qed
qed

lemma digits_lower: "0 < n \<Longrightarrow> 1 < b \<Longrightarrow> b ^ nat (digits b n - 1) \<le> n"
proof (induction b n rule: digits.induct)
  case (1 b n)
  have d: "digits b n = digits b (n div b) + 1"
    using 1 by (subst digits.simps) simp
  show ?case
  proof (cases "0 < n div b")
    case True
    with 1 have ih: "b ^ nat (digits b (n div b) - 1) \<le> n div b" by simp
    from True 1 have p: "1 \<le> digits b (n div b)" by (simp add: digits_pos)
    then have "nat (digits b n - 1) = Suc (nat (digits b (n div b) - 1))"
      using d by simp
    then have "b ^ nat (digits b n - 1) = b * b ^ nat (digits b (n div b) - 1)" by simp
    also have "\<dots> \<le> b * (n div b)" using ih 1 by (simp add: mult_left_mono)
    also have "\<dots> \<le> n"
    proof -
      have "b * (n div b) + n mod b = n" by simp
      moreover have "0 \<le> n mod b" using 1 by simp
      ultimately show ?thesis by linarith
    qed
    finally show ?thesis .
  next
    case False
    with 1 have "n div b = 0" by (simp add: pos_imp_zdiv_nonneg_iff order.antisym not_less)
    then have "digits b (n div b) = 0" by (subst digits.simps) simp
    with d 1 show ?thesis by simp
  qed
qed

lemma digits_upper: "0 < n \<Longrightarrow> 1 < b \<Longrightarrow> n < b ^ nat (digits b n)"
proof (induction b n rule: digits.induct)
  case (1 b n)
  have d: "digits b n = digits b (n div b) + 1"
    using 1 by (subst digits.simps) simp
  show ?case
  proof (cases "0 < n div b")
    case True
    with 1 have ih: "n div b < b ^ nat (digits b (n div b))" by simp
    from True 1 have p: "1 \<le> digits b (n div b)" by (simp add: digits_pos)
    then have e: "nat (digits b n) = Suc (nat (digits b (n div b)))" using d by simp
    from ih have "n div b + 1 \<le> b ^ nat (digits b (n div b))" by simp
    then have "b * (n div b + 1) \<le> b * b ^ nat (digits b (n div b))"
      using 1 by (simp add: mult_left_mono)
    moreover have "n < b * (n div b + 1)"
    proof -
      have "b * (n div b) + n mod b = n" by simp
      moreover have "n mod b < b" using 1 by simp
      moreover have "b * (n div b + 1) = b * (n div b) + b" by (simp add: distrib_left)
      ultimately show ?thesis by linarith
    qed
    ultimately show ?thesis using e by simp
  next
    case False
    with 1 have z: "n div b = 0" by (simp add: pos_imp_zdiv_nonneg_iff order.antisym not_less)
    then have "digits b (n div b) = 0" by (subst digits.simps) simp
    moreover from z 1 have "n < b" by (simp add: div_pos_pos_trivial zdiv_eq_0_iff)
    ultimately show ?thesis using d by simp
  qed
qed

lemma powi_nat: "0 \<le> k \<Longrightarrow> (x::rat) powi k = x ^ nat k"
  by (simp add: power_int_def)

lemma ilog_bounds:
  assumes "q \<noteq> 0" and "1 < b"
  shows "of_int b powi ilog b q \<le> \<bar>q\<bar> \<and> \<bar>q\<bar> < of_int b powi (ilog b q + 1)"
proof -
  obtain n d where qd: "quotient_of q = (n, d)" by (cases "quotient_of q")
  then have d: "0 < d" and q: "q = of_int n / of_int d"
    by (simp_all add: quotient_of_denom_pos quotient_of_div)
  from q assms(1) have n: "0 < \<bar>n\<bar>" by auto
  define B :: rat where "B = of_int b"
  define kn where "kn = digits b \<bar>n\<bar>"
  define kd where "kd = digits b d"
  have B: "1 < B" "0 < B" "B \<noteq> 0" using assms(2) by (simp_all add: B_def)
  have kn: "1 \<le> kn" and kd: "1 \<le> kd"
    using n d assms(2) by (simp_all add: kn_def kd_def digits_pos)
  have nl: "B ^ nat (kn - 1) \<le> of_int \<bar>n\<bar>"
    using digits_lower [OF n assms(2)] unfolding B_def kn_def
    by (metis of_int_le_iff of_int_power)
  have nu: "of_int \<bar>n\<bar> < B ^ nat kn"
    using digits_upper [OF n assms(2)] unfolding B_def kn_def
    by (metis of_int_less_iff of_int_power)
  have dl: "B ^ nat (kd - 1) \<le> of_int d"
    using digits_lower [OF d assms(2)] unfolding B_def kd_def
    by (metis of_int_le_iff of_int_power)
  have du: "of_int d < B ^ nat kd"
    using digits_upper [OF d assms(2)] unfolding B_def kd_def
    by (metis of_int_less_iff of_int_power)
  have aq: "\<bar>q\<bar> = of_int \<bar>n\<bar> / of_int d" using q d by simp
  have p0: "B powi (kn - kd) = B ^ nat kn / B ^ nat kd"
    using B kn kd by (simp add: power_int_diff powi_nat)
  have p1: "B powi (kn - kd - 1) = B ^ nat (kn - 1) / B ^ nat kd"
  proof -
    have "B powi (kn - kd - 1) = B powi ((kn - 1) - kd)" by (simp add: algebra_simps)
    also have "\<dots> = B powi (kn - 1) / B powi kd" using B by (simp add: power_int_diff)
    finally show ?thesis using kn kd by (simp add: powi_nat)
  qed
  have p2: "B powi (kn - kd + 1) = B ^ nat kn / B ^ nat (kd - 1)"
  proof -
    have "B powi (kn - kd + 1) = B powi (kn - (kd - 1))" by (simp add: algebra_simps)
    also have "\<dots> = B powi kn / B powi (kd - 1)" using B by (simp add: power_int_diff)
    finally show ?thesis using kn kd by (simp add: powi_nat)
  qed
  have low: "B powi (kn - kd - 1) \<le> \<bar>q\<bar>"
    unfolding p1 aq using nl du d B by (intro frac_le) simp_all
  have up: "\<bar>q\<bar> < B powi (kn - kd + 1)"
    unfolding p2 aq using nu dl d B by (intro frac_less) simp_all
  have il: "ilog b q = (if B powi (kn - kd) \<le> \<bar>q\<bar> then kn - kd else kn - kd - 1)"
    using qd by (simp add: ilog_def B_def kn_def kd_def Let_def)
  show ?thesis
  proof (cases "B powi (kn - kd) \<le> \<bar>q\<bar>")
    case True
    with il up show ?thesis by (simp add: B_def)
  next
    case False
    with il low show ?thesis by (simp add: B_def)
  qed
qed

lemma round_half_even_error: "\<bar>of_int (round_half_even x) - x\<bar> \<le> 1 / 2"
proof -
  have "of_int \<lfloor>x\<rfloor> \<le> x" "x < of_int \<lfloor>x\<rfloor> + 1" by linarith+
  then show ?thesis by (auto simp: round_half_even_def Let_def abs_le_iff)
qed

lemma scaled_round_error:
  assumes "0 < (u::rat)"
  shows "\<bar>of_int (round_half_even (q / u)) * u - q\<bar> \<le> u / 2"
proof -
  have "of_int (round_half_even (q / u)) * u - q = (of_int (round_half_even (q / u)) - q / u) * u"
    using assms by (simp add: field_simps)
  then have "\<bar>of_int (round_half_even (q / u)) * u - q\<bar>
      = \<bar>of_int (round_half_even (q / u)) - q / u\<bar> * u"
    using assms by (simp add: abs_mult)
  also have "\<dots> \<le> (1 / 2) * u"
    using round_half_even_error [of "q / u"] assms by (intro mult_right_mono) simp_all
  finally show ?thesis by simp
qed

lemma to_float_error: "\<bar>to_float q - q\<bar> \<le> \<bar>q\<bar> / 2 ^ 53 + 1 / 2 ^ 1075"
proof (cases "q = 0")
  case True
  then show ?thesis by (simp add: to_float_def)
next
  case False
  define e where "e = max (ilog 2 q) (- 1022)"
  define u :: rat where "u = 2 powi (e - 52)"
  have u: "0 < u" by (simp add: u_def powi_pos)
  have f: "to_float q = of_int (round_half_even (q / u)) * u"
    using False by (simp add: to_float_def Let_def e_def u_def)
  have err: "\<bar>to_float q - q\<bar> \<le> u / 2"
    unfolding f using u by (rule scaled_round_error)
  have "u / 2 \<le> \<bar>q\<bar> / 2 ^ 53 + 1 / 2 ^ 1075"
  proof (cases "- 1022 \<le> ilog 2 q")
    case True
    then have "u = 2 powi ilog 2 q / 2 powi 52"
      by (simp add: u_def e_def power_int_diff)
    also have "\<dots> \<le> \<bar>q\<bar> / 2 powi 52"
      using ilog_bounds [OF False, of 2] by (intro divide_right_mono) simp_all
    finally have "u / 2 \<le> \<bar>q\<bar> / 2 powi 52 / 2" by simp
    also have "\<dots> = \<bar>q\<bar> / 2 ^ 53" by (simp add: power_int_def)
    finally show ?thesis by (simp add: add_increasing2)
  next
    case False
    then have "u = 2 powi (- 1074)" by (simp add: u_def e_def max_def)
    also have "\<dots> = 1 / 2 ^ 1074" by (simp add: power_int_def inverse_eq_divide power_one_over)
    finally have "u / 2 = 1 / 2 ^ 1075" by simp
    then show ?thesis by simp
  qed
  with err show ?thesis by linarith
qed

lemma to_decimal28_error: "\<bar>to_decimal28 q - q\<bar> \<le> \<bar>q\<bar> / (2 * 10 ^ 27)"
proof (cases "q = 0")
  case True
  then show ?thesis by (simp add: to_decimal28_def)
next
  case False
  define u :: rat where "u = 10 powi (ilog 10 q - 27)"
  have u: "0 < u" by (simp add: u_def powi_pos)
  have f: "to_decimal28 q = of_int (round_half_even (q / u)) * u"
    using False by (simp add: to_decimal28_def Let_def u_def)
  have err: "\<bar>to_decimal28 q - q\<bar> \<le> u / 2"
    unfolding f using u by (rule scaled_round_error)
  have "u = 10 powi ilog 10 q / 10 powi 27"
    by (simp add: u_def power_int_diff)
  also have "\<dots> \<le> \<bar>q\<bar> / 10 powi 27"
    using ilog_bounds [OF False, of 10] by (intro divide_right_mono) simp_all
  finally have "u / 2 \<le> \<bar>q\<bar> / 10 powi 27 / 2" by simp
  also have "\<dots> = \<bar>q\<bar> / (2 * 10 ^ 27)" by (simp add: power_int_def)
  finally show ?thesis using err by linarith
qed

lemma multiplier_value: "POLL_BUFFER_MULTIPLIER = 5404319552844595 / 4503599627370496"
  unfolding POLL_BUFFER_MULTIPLIER_def by code_simp

lemma projected_cost_accuracy:
  assumes "0 \<le> d"
  shows "\<bar>projected_cost ad (to_float (decimal_mul d POLL_BUFFER_MULTIPLIER))
           - (d * (6 / 5) + of_nat (sleep_seconds ad))\<bar>
         \<le> (d * (6 / 5) + of_nat (sleep_seconds ad)) / 2 ^ 49 + 1 / 2 ^ 1073"
proof -
  define eps :: rat where "eps = 1 / 2 ^ 53"
  define del :: rat where "del = 1 / (2 * 10 ^ 27)"
  define eta :: rat where "eta = 1 / 2 ^ 1075"
  define A where "A = d * (6 / 5)"
  define T :: rat where "T = of_nat (sleep_seconds ad)"
  define x0 where "x0 = d * POLL_BUFFER_MULTIPLIER"
  define x1 where "x1 = to_decimal28 x0"
  define g where "g = to_float x1"
  define tn where "tn = to_float T"
  define s where "s = g + tn"
  define c where "c = to_float s"
  have eps: "0 \<le> eps" "7 * eps \<le> 1" and del: "0 \<le> del" "del \<le> eps" and eta: "0 \<le> eta"
    by (simp_all add: eps_def del_def eta_def)
  have A: "0 \<le> A" "d \<le> A" and T: "0 \<le> T" using assms by (simp_all add: A_def T_def)
  have x0: "0 \<le> x0" using assms by (simp add: x0_def multiplier_value)
  have "x0 - A = d * (POLL_BUFFER_MULTIPLIER - 6 / 5)"
    by (simp add: x0_def A_def algebra_simps)
  then have "\<bar>x0 - A\<bar> = d * \<bar>POLL_BUFFER_MULTIPLIER - 6 / 5\<bar>"
    using assms by (simp only: abs_mult abs_of_nonneg)
  also have "\<bar>POLL_BUFFER_MULTIPLIER - 6 / 5\<bar> \<le> eps"
    by (simp add: multiplier_value eps_def)
  finally have "\<bar>x0 - A\<bar> \<le> d * eps" using assms by (simp add: mult_left_mono)
  also have "\<dots> \<le> A * eps" using A eps by (intro mult_right_mono) simp_all
  finally have e0: "\<bar>x0 - A\<bar> \<le> A * eps" .
  have Ae: "0 \<le> A * eps" "A * eps \<le> A" using A eps by (simp_all add: mult_left_le)
  have x0u: "x0 \<le> 2 * A" using e0 Ae by linarith
  have x1: "0 \<le> x1" unfolding x1_def using x0 by (rule to_decimal28_nonneg)
  have "\<bar>x1 - x0\<bar> \<le> x0 * del"
    using to_decimal28_error [of x0] x0 by (simp add: x1_def del_def)
  also have "\<dots> \<le> (2 * A) * eps"
    using x0u x0 del A by (intro mult_mono) simp_all
  finally have e1: "\<bar>x1 - x0\<bar> \<le> 2 * (A * eps)" by simp
  have x1u: "x1 \<le> 4 * A" using e1 x0u Ae by linarith
  have g: "0 \<le> g" unfolding g_def using x1 by (rule to_float_nonneg)
  have "\<bar>g - x1\<bar> \<le> x1 * eps + eta"
    using to_float_error [of x1] x1 by (simp add: g_def eps_def eta_def)
  also have "x1 * eps \<le> (4 * A) * eps" using x1u eps by (intro mult_right_mono) simp_all
  finally have e2: "\<bar>g - x1\<bar> \<le> 4 * (A * eps) + eta" by simp
  have eg: "\<bar>g - A\<bar> \<le> 7 * (A * eps) + eta" using e0 e1 e2 by linarith
  have tn: "0 \<le> tn" unfolding tn_def using T by (rule to_float_nonneg)
  have et: "\<bar>tn - T\<bar> \<le> T * eps + eta"
    using to_float_error [of T] T by (simp add: tn_def eps_def eta_def)
  have seven: "7 * (x * eps) \<le> x" if "0 \<le> x" for x
    using mult_left_mono [OF eps(2) that] by (simp add: algebra_simps)
  have Te: "0 \<le> T * eps" "7 * (T * eps) \<le> T" "7 * (A * eps) \<le> A"
    using T A eps seven by simp_all
  have s: "0 \<le> s" using g tn by (simp add: s_def)
  have es: "\<bar>s - (A + T)\<bar> \<le> 7 * (A * eps) + T * eps + 2 * eta"
    using eg et by (simp add: s_def)
  have "s - (A + T) \<le> 7 * (A * eps) + T * eps + 2 * eta"
    using es by (simp add: abs_le_iff)
  moreover have "T * eps \<le> T" using Te(1,2) by linarith
  ultimately have "s \<le> 2 * A + 2 * T + 2 * eta" using Te(3) by linarith
  then have su: "s \<le> 2 * (A + T) + 2 * eta" by simp
  have "\<bar>c - s\<bar> \<le> s * eps + eta"
    using to_float_error [of s] s by (simp add: c_def eps_def eta_def)
  also have "s * eps \<le> (2 * (A + T) + 2 * eta) * eps"
    using su eps by (intro mult_right_mono) simp_all
  also have "\<dots> = 2 * (A * eps) + 2 * (T * eps) + 2 * (eta * eps)" by (simp add: algebra_simps)
  finally have ec: "\<bar>c - s\<bar> \<le> 2 * (A * eps) + 2 * (T * eps) + 2 * (eta * eps) + eta" by simp
  have "2 * eps \<le> 1" using eps by linarith
  from mult_left_mono [OF this eta] have ee: "2 * (eta * eps) \<le> eta"
    by (simp add: algebra_simps)
  have "\<bar>c - (A + T)\<bar> \<le> 16 * (A * eps) + 16 * (T * eps) + 4 * eta"
    using ec es ee Te(1) Ae(1) by linarith
  also have "16 * (A * eps) + 16 * (T * eps) = (A + T) * (16 * eps)"
    by (simp add: algebra_simps)
  also have "16 * eps = 1 / 2 ^ 49" by (simp add: eps_def)
  also have "4 * eta = 1 / 2 ^ 1073" by (simp add: eta_def)
  finally have final: "\<bar>c - (A + T)\<bar> \<le> (A + T) / 2 ^ 49 + 1 / 2 ^ 1073" by simp
  have pc: "projected_cost ad (to_float (decimal_mul d POLL_BUFFER_MULTIPLIER)) = c"
    by (simp add: c_def s_def g_def tn_def x1_def x0_def T_def projected_cost_def
          float_add_def float_of_int_def decimal_mul_def)
  show ?thesis using final unfolding pc A_def T_def .
qed

subsection \<open>Evaluated runs\<close>

lemma cost_example:
  "projected_cost example_adapter (to_float (decimal_mul (to_float (1 / 100)) POLL_BUFFER_MULTIPLIER))
     = to_float (5012 / 1000)"
  by code_simp

lemma remaining_5000: "float_div (float_of_int 5000) 1000 = 5"
  by code_simp

lemma float_5012: "to_float (5012 / 1000) = 5643010333095231 / 1125899906842624"
  by code_simp

lemma run_one_poll_with_logs:
  "gather example_adapter
     [example_poll (FetchReturns (Some [''r1'']) (Some 200) None) (SendReturns True) 0 60000]
     (app_init (example_config Idle full_auth))
   = Some (Inr (),
       \<lparr>config = (example_config Succeeded full_auth)\<lparr>last_timestamp := 200\<rparr>,
        gathered_log_count = 1, more_to_poll = False, poll_count = 1, self_last_timestamp = 200,
        trace = [MarkRunning, Fetch, Deliver (Str ''rule_processor'') [''r1''] (SendReturns True),
                 SaveTimestamp 200, QueryRemaining, MarkSuccess, SaveTimestamp 200]\<rparr>)"
  by code_simp

lemma run_one_empty_poll:
  "gather example_adapter
     [example_poll (FetchReturns None None None) (SendReturns True) 0 60000]
     (app_init (example_config Idle full_auth))
   = Some (Inr (),
       \<lparr>config = example_config Succeeded full_auth,
        gathered_log_count = 0, more_to_poll = False, poll_count = 0, self_last_timestamp = 100,
        trace = [MarkRunning, Fetch, QueryRemaining, MarkSuccess, SaveTimestamp 100]\<rparr>)"
  by code_simp

lemma loop_last_page_first:
  "gather_loop example_adapter [last_page, full_page] started_app = Some (Inr (), after_last_page)"
  by code_simp

lemma loop_full_page_first:
  "gather_loop example_adapter [full_page, last_page] started_app = Some (Inr (), after_two_pages)"
  by code_simp

lemma last_page_facts:
  "\<not> asserts_more last_page" "fits_budget example_adapter last_page" "asserts_more full_page"
  by code_simp+

lemma run_no_time_left:
  "gather example_adapter [no_time_left] (app_init (example_config Idle full_auth))
   = Some (Inr (),
       \<lparr>config = (example_config Succeeded full_auth)\<lparr>last_timestamp := 200\<rparr>,
        gathered_log_count = 1, more_to_poll = True, poll_count = 1, self_last_timestamp = 200,
        trace = [MarkRunning, Fetch, Deliver (Str ''rule_processor'') [''r1''] (SendReturns True),
                 SaveTimestamp 200, QueryRemaining, MarkSuccess, SaveTimestamp 200]\<rparr>)"
  by code_simp

lemma gather_protected_spec_timing:
  "gather_protected example_adapter spec_timing started_app
     = (Inr (3458764513820541 / 288230376151711744), after_spec_timing)"
  by code_simp

lemma spec_timing_facts:
  "timeit spec_timing = to_float (1 / 100)" "sleep_seconds example_adapter = 5"
  "remaining_ms spec_timing = 5000"
  by (simp_all add: spec_timing_def example_poll_def example_adapter_def)

section \<open>The concurrency guard\<close>

text \<open>
  C2. For every job whose stored status is already RUNNING, the public entry point
  \<open>gather\<close> returns normally and leaves the whole state as it found it: the trace gains
  no event (no fetch, no delivery, no write to the store), and the stored status and
  watermark are those it started with. No poll is consumed, so the run returns
  whatever the outside world would have answered.
\<close>

theorem gather_while_running_does_nothing:
  "is_running (config a) \<Longrightarrow> gather ad ps a = Some (Inr (), a)"
  by (simp add: gather_def initialize_def)

theorem gather_while_running_does_nothing_witness:
  "is_running (config (app_init (example_config Running full_auth)))
   \<and> gather example_adapter [] (app_init (example_config Running full_auth))
       = Some (Inr (), app_init (example_config Running full_auth))"
proof -
  have r: "is_running (config (app_init (example_config Running full_auth)))"
    by (simp add: is_running_def example_defs)
  from r gather_while_running_does_nothing [OF r] show ?thesis by simp
qed

section \<open>Credential validation\<close>

text \<open>
  C9. For a configuration that is not empty and holds a credential map under \<open>'auth'\<close>,
  validation succeeds exactly when the required keys minus the supplied keys is the
  empty set; otherwise it raises the configuration error that carries that whole
  difference, every missing key and nothing else. Supplied keys beyond the required
  ones never make it fail.
\<close>

theorem validate_auth_set_difference:
  assumes "items c \<noteq> []" and "map_of (items c) ''auth'' = Some auth"
  shows "((validate_auth ad c = Inr ()) = (set (required_auth_keys ad) - key_set auth = {}))
       \<and> (set (required_auth_keys ad) - key_set auth \<noteq> {} \<longrightarrow>
            validate_auth ad c =
              Inl (AppIntegrationConfigError
                    (MissingKeys (set (required_auth_keys ad) - key_set auth))))
       \<and> (set (required_auth_keys ad) \<subseteq> key_set auth \<longrightarrow> validate_auth ad c = Inr ())"
  using assms by (auto simp: validate_auth_def Let_def)

text \<open>
  The spec's two examples: required \<open>api_key\<close> and \<open>subdomain\<close>, supplied \<open>api_key\<close> alone,
  fails naming exactly \<open>subdomain\<close>; supplied \<open>api_key\<close>, \<open>subdomain\<close> and \<open>extra\<close> succeeds.
\<close>

theorem validate_auth_set_difference_witness:
  "items (example_config Idle [(''api_key'', ''k'')]) \<noteq> []
   \<and> map_of (items (example_config Idle [(''api_key'', ''k'')])) ''auth''
       = Some (Dict [(''api_key'', ''k'')])
   \<and> set (required_auth_keys example_adapter) - key_set (Dict [(''api_key'', ''k'')]) \<noteq> {}
   \<and> validate_auth example_adapter (example_config Idle [(''api_key'', ''k'')])
       = Inl (AppIntegrationConfigError (MissingKeys {''subdomain''}))
   \<and> items (example_config Idle full_auth) \<noteq> []
   \<and> map_of (items (example_config Idle full_auth)) ''auth'' = Some (Dict full_auth)
   \<and> set (required_auth_keys example_adapter) \<subseteq> key_set (Dict full_auth)
   \<and> validate_auth example_adapter (example_config Idle full_auth) = Inr ()"
proof -
  have i1: "items (example_config Idle [(''api_key'', ''k'')]) \<noteq> []"
    and m1: "map_of (items (example_config Idle [(''api_key'', ''k'')])) ''auth''
              = Some (Dict [(''api_key'', ''k'')])"
    and d1: "set (required_auth_keys example_adapter) - key_set (Dict [(''api_key'', ''k'')])
              = {''subdomain''}"
    by (simp_all add: example_defs)
  have i2: "items (example_config Idle full_auth) \<noteq> []"
    and m2: "map_of (items (example_config Idle full_auth)) ''auth'' = Some (Dict full_auth)"
    and d2: "set (required_auth_keys example_adapter) \<subseteq> key_set (Dict full_auth)"
    by (simp_all add: example_defs)
  from validate_auth_set_difference [OF i1 m1, of example_adapter]
       validate_auth_set_difference [OF i2 m2, of example_adapter]
       i1 m1 d1 i2 m2 d2
  show ?thesis by (simp add: example_defs)
qed

text \<open>
  C5. When the job is not running and validation of the configuration fails, \<open>gather\<close>
  hands the configuration error to its caller and the state is the one it started
  with: no event has happened, so \<open>_finalize\<close> was not reached, and nothing was written
  to the store. Validation comes before \<open>mark_running\<close>, so the stored status is still
  the one found on entry, which is not RUNNING.
\<close>

theorem config_error_propagates_before_mark_running:
  assumes "\<not> is_running (config a)" and "validate_auth ad (config a) = Inl e"
  shows "gather ad ps a = Some (Inl e, a) \<and> current_state (config a) \<noteq> Running"
  using assms by (simp add: gather_def initialize_def is_running_def)

theorem config_error_propagates_before_mark_running_witness:
  "\<not> is_running (config (app_init (example_config Idle [(''api_key'', ''k'')])))
   \<and> validate_auth example_adapter (config (app_init (example_config Idle [(''api_key'', ''k'')])))
       = Inl (AppIntegrationConfigError (MissingKeys {''subdomain''}))
   \<and> gather example_adapter [] (app_init (example_config Idle [(''api_key'', ''k'')]))
       = Some (Inl (AppIntegrationConfigError (MissingKeys {''subdomain''})),
               app_init (example_config Idle [(''api_key'', ''k'')]))"
proof -
  have r: "\<not> is_running (config (app_init (example_config Idle [(''api_key'', ''k'')])))"
    by (simp add: is_running_def example_defs)
  have v: "validate_auth example_adapter
             (config (app_init (example_config Idle [(''api_key'', ''k'')])))
           = Inl (AppIntegrationConfigError (MissingKeys {''subdomain''}))"
    by (simp add: validate_auth_def example_defs)
  from config_error_propagates_before_mark_running [OF r v, of "[]"] r v
  show ?thesis by simp
qed

text \<open>
  The spec's wording, that the job is left in RUNNING status, fails: a job
  found idle with a credential missing is still idle after the error.
\<close>

theorem config_error_leaves_running_counterexample:
  "gather example_adapter [] (app_init (example_config Idle [(''api_key'', ''k'')]))
     = Some (Inl (AppIntegrationConfigError (MissingKeys {''subdomain''})),
             app_init (example_config Idle [(''api_key'', ''k'')]))
   \<and> current_state (config (app_init (example_config Idle [(''api_key'', ''k'')]))) = Idle
   \<and> current_state (config (app_init (example_config Idle [(''api_key'', ''k'')]))) \<noteq> Running"
  by (simp add: gather_def initialize_def is_running_def validate_auth_def example_defs)

section \<open>One poll: delivery and the saved watermark\<close>

text \<open>
  C1. In every poll, the watermark is written to the store only in the one case where
  the call of \<open>send_logs\<close> for that poll's logs has returned, and then the write comes
  after the delivery in the trace; in every other case the configuration is left as
  it was. If \<open>send_logs\<close> raises, the stored watermark is unchanged. What \<open>send_logs\<close>
  returns is not looked at: once it has returned, whatever the value, the watermark the
  subclass set is written.
\<close>

theorem watermark_saved_only_after_send_logs_returns:
  assumes "do_gather p a = (r, a')"
  shows "((\<exists>evs. trace a' = trace a @ evs \<and> (\<forall>t. SaveTimestamp t \<notin> set evs)
              \<and> config a' = config a)
          \<or> (\<exists>fn ls b. r = Inr () \<and> send_logs p = SendReturns b
              \<and> trace a' = trace a @ [Fetch, Deliver fn ls (SendReturns b),
                                        SaveTimestamp (self_last_timestamp a')]
              \<and> config a' = (config a)\<lparr>last_timestamp := self_last_timestamp a'\<rparr>))
       \<and> (send_logs p = SendRaises \<longrightarrow> config a' = config a)
       \<and> (\<forall>ls ts flag fn b.
             gather_logs p = FetchReturns (Some ls) ts flag \<and> ls \<noteq> []
             \<and> map_of (items (config a)) ''function_name'' = Some fn
             \<and> send_logs p = SendReturns b \<longrightarrow>
             r = Inr () \<and> last_timestamp (config a') = assign ts (self_last_timestamp a))"
  using do_gather_cases [OF assms] do_gather_send_raises [OF assms]
    do_gather_send_returns [OF assms]
  by blast

theorem watermark_saved_only_after_send_logs_returns_witness:
  "do_gather (example_poll (FetchReturns (Some [''r1'']) (Some 200) None) SendRaises 0 0)
      started_app
     = (Inl SendLogsError,
        started_app\<lparr>gathered_log_count := 1, self_last_timestamp := 200,
          trace := [MarkRunning, Fetch, Deliver (Str ''rule_processor'') [''r1''] SendRaises]\<rparr>)
   \<and> send_logs (example_poll (FetchReturns (Some [''r1'']) (Some 200) None) SendRaises 0 0)
       = SendRaises
   \<and> config (started_app\<lparr>gathered_log_count := 1, self_last_timestamp := 200,
          trace := [MarkRunning, Fetch, Deliver (Str ''rule_processor'') [''r1''] SendRaises]\<rparr>)
       = config started_app
   \<and> last_timestamp (config started_app) = 100"
proof -
  have d: "do_gather (example_poll (FetchReturns (Some [''r1'']) (Some 200) None) SendRaises 0 0)
      started_app
     = (Inl SendLogsError,
        started_app\<lparr>gathered_log_count := 1, self_last_timestamp := 200,
          trace := [MarkRunning, Fetch, Deliver (Str ''rule_processor'') [''r1''] SendRaises]\<rparr>)"
    by (simp add: do_gather_def Let_def assign_def started_app_def example_defs)
  have s: "send_logs (example_poll (FetchReturns (Some [''r1'']) (Some 200) None) SendRaises 0 0)
       = SendRaises"
    by (simp add: example_poll_def)
  from watermark_saved_only_after_send_logs_returns [OF d] s d
  show ?thesis by (simp add: started_app_def example_defs)
qed

text \<open>
  The spec's wording, that a failed delivery leaves the saved watermark
  unchanged, fails when the sink reports the failure by its return value: the batch was
  refused, and the stored watermark moves from 100 to 200.
\<close>

theorem failed_delivery_advances_watermark_counterexample:
  "do_gather (example_poll (FetchReturns (Some [''r1'']) (Some 200) None) (SendReturns False) 0 0)
      started_app
     = (Inr (),
        started_app\<lparr>config := (example_config Running full_auth)\<lparr>last_timestamp := 200\<rparr>,
          gathered_log_count := 1, poll_count := 1, self_last_timestamp := 200,
          trace := [MarkRunning, Fetch,
                    Deliver (Str ''rule_processor'') [''r1''] (SendReturns False),
                    SaveTimestamp 200]\<rparr>)
   \<and> last_timestamp (config started_app) = 100
   \<and> last_timestamp ((example_config Running full_auth)\<lparr>last_timestamp := 200\<rparr>) = 200"
  by (simp add: do_gather_def Let_def assign_def started_app_def example_defs)

section \<open>The end of a run\<close>

text \<open>
  C4. Whenever \<open>_initialize\<close> has returned \<open>True\<close> and the loop ends without an error,
  whatever the polls gathered, \<open>gather\<close> runs \<open>_finalize\<close>, whose two writes end the
  trace: status SUCCEEDED and the final watermark. When a poll raises, the error leaves
  \<open>gather\<close>: \<open>_finalize\<close> is not run and the status stays RUNNING; \<open>gather\<close> writes no
  FAILED status. The run returns as soon as one poll does not re-assert the
  continuation flag or does not fit the budget.
\<close>

theorem finalize_after_loop_without_error:
  assumes "initialize ad a = (Inr True, a1)"
  shows "(\<forall>a2. gather_loop ad ps a1 = Some (Inr (), a2) \<longrightarrow>
            gather ad ps a = Some (Inr (), finalize a2)
            \<and> trace (finalize a2) = trace a2 @ [MarkSuccess, SaveTimestamp (self_last_timestamp a2)]
            \<and> current_state (config (finalize a2)) = Succeeded
            \<and> last_timestamp (config (finalize a2)) = self_last_timestamp a2)
       \<and> (\<forall>e a2. gather_loop ad ps a1 = Some (Inl e, a2) \<longrightarrow>
            gather ad ps a = Some (Inl e, a2)
            \<and> MarkSuccess \<notin> set (drop (length (trace a)) (trace a2))
            \<and> current_state (config a2) = Running)
       \<and> ((\<exists>p\<in>set ps. \<not> asserts_more p \<or> \<not> fits_budget ad p) \<and> \<not> more_to_poll a \<longrightarrow>
            gather ad ps a \<noteq> None)"
proof -
  note i = initialize_started [OF assms]
  have a1: "trace a1 = trace a @ [MarkRunning]" "current_state (config a1) = Running"
    "more_to_poll a1 = more_to_poll a"
    using i by (simp_all add: mark_running_def)
  have ok: "gather ad ps a = Some (Inr (), finalize a2)
            \<and> trace (finalize a2) = trace a2 @ [MarkSuccess, SaveTimestamp (self_last_timestamp a2)]
            \<and> current_state (config (finalize a2)) = Succeeded
            \<and> last_timestamp (config (finalize a2)) = self_last_timestamp a2"
    if "gather_loop ad ps a1 = Some (Inr (), a2)" for a2
    using that assms by (simp add: gather_def finalize_def Let_def mark_success_def)
  have err: "gather ad ps a = Some (Inl e, a2)
            \<and> MarkSuccess \<notin> set (drop (length (trace a)) (trace a2))
            \<and> current_state (config a2) = Running"
    if l: "gather_loop ad ps a1 = Some (Inl e, a2)" for e a2
  proof -
    from gather_loop_effect [OF l] a1 obtain evs where
      "trace a2 = trace a @ MarkRunning # evs" "MarkSuccess \<notin> set evs"
      "current_state (config a2) = Running"
      by auto
    with l assms show ?thesis by (simp add: gather_def)
  qed
  have ret: "gather ad ps a \<noteq> None"
    if "\<exists>p\<in>set ps. \<not> asserts_more p \<or> \<not> fits_budget ad p" "\<not> more_to_poll a"
  proof -
    from that a1 have "gather_loop ad ps a1 \<noteq> None"
      by (intro gather_loop_returns) simp_all
    with assms show ?thesis
      by (auto simp: gather_def split: option.splits sum.splits)
  qed
  from ok err ret show ?thesis by blast
qed

theorem finalize_after_loop_without_error_witness:
  "initialize example_adapter (app_init (example_config Idle full_auth)) = (Inr True, started_app)
   \<and> gather_loop example_adapter
        [example_poll (FetchReturns None None None) (SendReturns True) 0 60000] started_app
       = Some (Inr (), started_app\<lparr>trace := [MarkRunning, Fetch, QueryRemaining]\<rparr>)
   \<and> gather example_adapter
        [example_poll (FetchReturns None None None) (SendReturns True) 0 60000]
        (app_init (example_config Idle full_auth))
       = Some (Inr (), finalize (started_app\<lparr>trace := [MarkRunning, Fetch, QueryRemaining]\<rparr>))
   \<and> trace (finalize (started_app\<lparr>trace := [MarkRunning, Fetch, QueryRemaining]\<rparr>))
       = [MarkRunning, Fetch, QueryRemaining, MarkSuccess, SaveTimestamp 100]
   \<and> current_state (config (finalize (started_app\<lparr>trace := [MarkRunning, Fetch, QueryRemaining]\<rparr>)))
       = Succeeded
   \<and> last_timestamp (config (finalize (started_app\<lparr>trace := [MarkRunning, Fetch, QueryRemaining]\<rparr>)))
       = 100"
proof -
  have l: "gather_loop example_adapter
        [example_poll (FetchReturns None None None) (SendReturns True) 0 60000] started_app
       = Some (Inr (), started_app\<lparr>trace := [MarkRunning, Fetch, QueryRemaining]\<rparr>)"
    by code_simp
  from finalize_after_loop_without_error [OF initialize_example,
         of "[example_poll (FetchReturns None None None) (SendReturns True) 0 60000]"]
       l initialize_example
  show ?thesis by (simp add: started_app_def)
qed

text \<open>
  The spec's wording, that \<open>_finalize\<close> is invoked and writes FAILED when a
  poll raises, fails: after a poll that raises there is no \<open>MarkSuccess\<close> in the trace and
  the stored status is RUNNING.
\<close>

theorem iteration_error_skips_finalize_counterexample:
  "initialize example_adapter (app_init (example_config Idle full_auth)) = (Inr True, started_app)
   \<and> gather example_adapter [example_poll FetchRaises (SendReturns True) 0 60000]
        (app_init (example_config Idle full_auth))
       = Some (Inl GatherLogsError, started_app\<lparr>trace := [MarkRunning, Fetch]\<rparr>)
   \<and> MarkSuccess \<notin> set [MarkRunning, Fetch]
   \<and> current_state (config (started_app\<lparr>trace := [MarkRunning, Fetch]\<rparr>)) = Running
   \<and> current_state (config (started_app\<lparr>trace := [MarkRunning, Fetch]\<rparr>)) \<noteq> Failed"
proof -
  have g: "gather example_adapter [example_poll FetchRaises (SendReturns True) 0 60000]
        (app_init (example_config Idle full_auth))
       = Some (Inl GatherLogsError, started_app\<lparr>trace := [MarkRunning, Fetch]\<rparr>)"
    by (simp add: gather_def initialize_example gather_protected_def do_gather_def sleep_def
          started_app_def example_poll_def)
  from g initialize_example show ?thesis by (simp add: started_app_def example_config_def)
qed

text \<open>
  C6. For every run that returns without error: if no poll assigned
  \<open>self._last_timestamp\<close> a value below the watermark found at the start, the final
  watermark is at least the start watermark; and if polls assign it only when they
  return logs and the run gathered no logs, the final watermark equals the start
  watermark.
\<close>

theorem final_watermark_not_below_start:
  assumes "gather ad ps a = Some (Inr (), a')"
  shows "((\<forall>p\<in>set ps. keeps_watermark_above (last_timestamp (config a)) p) \<longrightarrow>
            last_timestamp (config a) \<le> last_timestamp (config a'))
       \<and> ((\<forall>p\<in>set ps. moves_watermark_only_with_logs p)
            \<and> gathered_log_count a' = gathered_log_count a \<longrightarrow>
            last_timestamp (config a') = last_timestamp (config a))"
proof (cases "is_running (config a)")
  case True
  with assms have "a' = a" by (simp add: gather_def initialize_def)
  then show ?thesis by simp
next
  case False
  obtain r a1 where i: "initialize ad a = (r, a1)" by (cases "initialize ad a")
  with assms False have st: "initialize ad a = (Inr True, a1)"
    by (auto simp: gather_def initialize_def Let_def split: sum.splits if_splits)
  note s = initialize_started [OF st]
  from assms st obtain a2 where
    l: "gather_loop ad ps a1 = Some (Inr (), a2)" and a': "a' = finalize a2"
    by (auto simp: gather_def split: option.splits sum.splits)
  have f: "last_timestamp (config a') = self_last_timestamp a2"
    "gathered_log_count a' = gathered_log_count a2"
    using a' by (simp_all add: finalize_def Let_def)
  have s1: "self_last_timestamp a1 = last_timestamp (config a)"
    "gathered_log_count a1 = gathered_log_count a"
    using s by simp_all
  have lower: "last_timestamp (config a) \<le> last_timestamp (config a')"
    if "\<forall>p\<in>set ps. keeps_watermark_above (last_timestamp (config a)) p"
    using gather_loop_timestamp_lower [OF l that] s1 f by simp
  have same: "last_timestamp (config a') = last_timestamp (config a)"
    if "\<forall>p\<in>set ps. moves_watermark_only_with_logs p"
      "gathered_log_count a' = gathered_log_count a"
    using gather_loop_timestamp_same [OF l that(1)] that(2) s1 f by simp
  from lower same show ?thesis by blast
qed

theorem final_watermark_not_below_start_witness:
  "gather example_adapter
     [example_poll (FetchReturns (Some [''r1'']) (Some 200) None) (SendReturns True) 0 60000]
     (app_init (example_config Idle full_auth))
   = Some (Inr (),
       \<lparr>config = (example_config Succeeded full_auth)\<lparr>last_timestamp := 200\<rparr>,
        gathered_log_count = 1, more_to_poll = False, poll_count = 1, self_last_timestamp = 200,
        trace = [MarkRunning, Fetch, Deliver (Str ''rule_processor'') [''r1''] (SendReturns True),
                 SaveTimestamp 200, QueryRemaining, MarkSuccess, SaveTimestamp 200]\<rparr>)
   \<and> keeps_watermark_above (last_timestamp (config (app_init (example_config Idle full_auth))))
        (example_poll (FetchReturns (Some [''r1'']) (Some 200) None) (SendReturns True) 0 60000)
   \<and> last_timestamp (config (app_init (example_config Idle full_auth)))
       \<le> last_timestamp ((example_config Succeeded full_auth)\<lparr>last_timestamp := 200\<rparr>)
   \<and> gather example_adapter
        [example_poll (FetchReturns None None None) (SendReturns True) 0 60000]
        (app_init (example_config Idle full_auth))
      = Some (Inr (),
         \<lparr>config = example_config Succeeded full_auth,
          gathered_log_count = 0, more_to_poll = False, poll_count = 0, self_last_timestamp = 100,
          trace = [MarkRunning, Fetch, QueryRemaining, MarkSuccess, SaveTimestamp 100]\<rparr>)
   \<and> moves_watermark_only_with_logs
        (example_poll (FetchReturns None None None) (SendReturns True) 0 60000)
   \<and> last_timestamp (example_config Succeeded full_auth)
       = last_timestamp (config (app_init (example_config Idle full_auth)))"
proof -
  have k: "keeps_watermark_above (last_timestamp (config (app_init (example_config Idle full_auth))))
        (example_poll (FetchReturns (Some [''r1'']) (Some 200) None) (SendReturns True) 0 60000)"
    by (simp add: keeps_watermark_above_def example_defs)
  have m: "moves_watermark_only_with_logs
        (example_poll (FetchReturns None None None) (SendReturns True) 0 60000)"
    by (simp add: moves_watermark_only_with_logs_def example_defs)
  from final_watermark_not_below_start [OF run_one_poll_with_logs]
       final_watermark_not_below_start [OF run_one_empty_poll]
       k m run_one_poll_with_logs run_one_empty_poll
  show ?thesis by (simp add: example_defs)
qed

text \<open>
  Without the conditions on the subclass the property fails: the base class stores
  whatever the subclass assigned, here 50 for a job that started at 100.
\<close>

theorem watermark_moves_backwards_counterexample:
  "gather example_adapter
     [example_poll (FetchReturns (Some [''r1'']) (Some 50) None) (SendReturns True) 0 60000]
     (app_init (example_config Idle full_auth))
   = Some (Inr (),
       \<lparr>config = (example_config Succeeded full_auth)\<lparr>last_timestamp := 50\<rparr>,
        gathered_log_count = 1, more_to_poll = False, poll_count = 1, self_last_timestamp = 50,
        trace = [MarkRunning, Fetch, Deliver (Str ''rule_processor'') [''r1''] (SendReturns True),
                 SaveTimestamp 50, QueryRemaining, MarkSuccess, SaveTimestamp 50]\<rparr>)
   \<and> last_timestamp (config (app_init (example_config Idle full_auth))) = 100
   \<and> last_timestamp ((example_config Succeeded full_auth)\<lparr>last_timestamp := 50\<rparr>) < 100"
proof -
  have "gather example_adapter
     [example_poll (FetchReturns (Some [''r1'']) (Some 50) None) (SendReturns True) 0 60000]
     (app_init (example_config Idle full_auth))
   = Some (Inr (),
       \<lparr>config = (example_config Succeeded full_auth)\<lparr>last_timestamp := 50\<rparr>,
        gathered_log_count = 1, more_to_poll = False, poll_count = 1, self_last_timestamp = 50,
        trace = [MarkRunning, Fetch, Deliver (Str ''rule_processor'') [''r1''] (SendReturns True),
                 SaveTimestamp 50, QueryRemaining, MarkSuccess, SaveTimestamp 50]\<rparr>)"
    by code_simp
  then show ?thesis by (simp add: example_defs)
qed

section \<open>The loop\<close>

text \<open>
  C8. With the continuation flag false when a poll starts, as it is for a fresh object
  and after every continuation: a poll that does not re-assert the flag ends the loop,
  with exactly one fetch and whatever the remaining time; a poll that re-asserts it and
  fits the budget is followed by the next poll, which starts with the flag reset to
  false; and in every run each poll but the last made had re-asserted the flag.
\<close>

theorem more_to_poll_flag_is_consumed:
  assumes "\<not> more_to_poll a"
  shows "(\<not> asserts_more p \<longrightarrow>
            (\<exists>r a' evs. (\<forall>ps. gather_loop ad (p # ps) a = Some (r, a'))
                \<and> trace a' = trace a @ evs \<and> fetches evs = 1))
       \<and> (\<forall>g a1. gather_protected ad p a = (Inr g, a1) \<and> asserts_more p
              \<and> projected_cost ad g < remaining_seconds p \<longrightarrow>
            gather_loop ad (p # ps) a =
              gather_loop ad ps (a1\<lparr>trace := trace a1 @ [QueryRemaining], more_to_poll := False\<rparr>))
       \<and> (\<forall>r a'. gather_loop ad ps a = Some (r, a') \<longrightarrow>
            (\<exists>evs. trace a' = trace a @ evs \<and> 1 \<le> fetches evs \<and> fetches evs \<le> length ps
               \<and> (\<forall>i. Suc i < fetches evs \<longrightarrow> asserts_more (ps ! i))))"
proof (intro conjI impI allI)
  assume na: "\<not> asserts_more p"
  obtain r a1 where gp: "gather_protected ad p a = (r, a1)" by (cases "gather_protected ad p a")
  from gather_protected_one_fetch [OF gp] obtain evs where
    e: "trace a1 = trace a @ evs" "fetches evs = 1" by blast
  show "\<exists>r a' evs. (\<forall>ps. gather_loop ad (p # ps) a = Some (r, a'))
                \<and> trace a' = trace a @ evs \<and> fetches evs = 1"
  proof (cases r)
    case (Inl err)
    with gp have "\<forall>ps. gather_loop ad (p # ps) a = Some (Inl err, a1)" by simp
    with e show ?thesis by blast
  next
    case (Inr g)
    with gp have gp': "gather_protected ad p a = (Inr g, a1)" by simp
    from gather_protected_flag [OF gp' assms] na have "\<not> more_to_poll a1" by simp
    then have "\<not> (projected_cost ad g < remaining_seconds p \<and> more_to_poll a1)" by simp
    from gather_loop_stop [OF gp' this]
    have "\<forall>ps. gather_loop ad (p # ps) a = Some (Inr (), a1\<lparr>trace := trace a1 @ [QueryRemaining]\<rparr>)"
      by simp
    moreover have "trace (a1\<lparr>trace := trace a1 @ [QueryRemaining]\<rparr>) = trace a @ (evs @ [QueryRemaining])"
      "fetches (evs @ [QueryRemaining]) = 1"
      using e by simp_all
    ultimately show ?thesis by blast
  qed
next
  fix g a1
  assume h: "gather_protected ad p a = (Inr g, a1) \<and> asserts_more p
              \<and> projected_cost ad g < remaining_seconds p"
  then have gp: "gather_protected ad p a = (Inr g, a1)" by simp
  from gather_protected_flag [OF gp assms] h have "more_to_poll a1" by simp
  with h gather_loop_continue [OF gp]
  show "gather_loop ad (p # ps) a =
          gather_loop ad ps (a1\<lparr>trace := trace a1 @ [QueryRemaining], more_to_poll := False\<rparr>)"
    by simp
next
  fix r a'
  assume "gather_loop ad ps a = Some (r, a')"
  from gather_loop_polls [OF this assms]
  show "\<exists>evs. trace a' = trace a @ evs \<and> 1 \<le> fetches evs \<and> fetches evs \<le> length ps
               \<and> (\<forall>i. Suc i < fetches evs \<longrightarrow> asserts_more (ps ! i))"
    by blast
qed

theorem more_to_poll_flag_is_consumed_witness:
  "\<not> more_to_poll started_app
   \<and> \<not> asserts_more last_page
   \<and> fits_budget example_adapter last_page
   \<and> gather_loop example_adapter [last_page, full_page] started_app
       = Some (Inr (), after_last_page)
   \<and> fetches (drop (length (trace started_app)) (trace after_last_page)) = 1
   \<and> asserts_more full_page
   \<and> gather_loop example_adapter [full_page, last_page] started_app
       = Some (Inr (), after_two_pages)
   \<and> fetches (drop (length (trace started_app)) (trace after_two_pages)) = 2
   \<and> more_to_poll after_two_pages = False"
proof -
  have n: "\<not> more_to_poll started_app" by (simp add: started_app_def)
  have f: "fetches (drop (length (trace started_app)) (trace after_last_page)) = 1"
    "fetches (drop (length (trace started_app)) (trace after_two_pages)) = 2"
    "more_to_poll after_two_pages = False"
    by (simp_all add: started_app_def after_last_page_def after_two_pages_def)
  from more_to_poll_flag_is_consumed [OF n, of last_page example_adapter "[full_page]"]
    n f last_page_facts loop_last_page_first loop_full_page_first
  show ?thesis by simp
qed

text \<open>
  C10. Whenever \<open>_initialize\<close> has returned \<open>True\<close>, the first poll runs before the
  remaining time is asked for: its events hold one fetch and no query, they do not
  depend on the remaining time, with logs returned and delivered they end in the
  delivery and the write of the watermark, and every result of the run extends them.
  With no time left at all the run still makes that poll and returns.
\<close>

theorem first_poll_runs_before_budget_check:
  assumes "initialize ad a = (Inr True, a1)"
  shows "\<exists>r a2 evs. gather_protected ad p a1 = (r, a2)
          \<and> trace a2 = trace a1 @ evs \<and> fetches evs = 1 \<and> QueryRemaining \<notin> set evs
          \<and> gather_protected ad (p\<lparr>remaining_ms := m\<rparr>) a1 = (r, a2)
          \<and> (\<forall>ls ts flag fn b.
                gather_logs p = FetchReturns (Some ls) ts flag \<and> ls \<noteq> []
                \<and> map_of (items (config a)) ''function_name'' = Some fn
                \<and> send_logs p = SendReturns b \<longrightarrow>
                (\<exists>sl. evs = sl @ [Fetch, Deliver fn ls (SendReturns b),
                                   SaveTimestamp (assign ts (last_timestamp (config a)))]))
          \<and> (\<forall>res a'. gather ad (p # ps) a = Some (res, a') \<longrightarrow>
                (\<exists>rest. trace a' = trace a2 @ rest))
          \<and> (0 \<le> timeit p \<and> remaining_ms p \<le> 0 \<longrightarrow> gather ad (p # ps) a \<noteq> None)"
proof -
  note i = initialize_started [OF assms]
  obtain r a2 where gp: "gather_protected ad p a1 = (r, a2)"
    by (cases "gather_protected ad p a1")
  from gather_protected_one_fetch [OF gp] obtain evs where
    e: "trace a2 = trace a1 @ evs" "fetches evs = 1" "QueryRemaining \<notin> set evs" by blast
  have ign: "gather_protected ad (p\<lparr>remaining_ms := m\<rparr>) a1 = (r, a2)"
    using gp by (simp add: gather_protected_ignores_remaining)
  have full: "\<exists>sl. evs = sl @ [Fetch, Deliver fn ls (SendReturns b),
                                   SaveTimestamp (assign ts (last_timestamp (config a)))]"
    if h: "gather_logs p = FetchReturns (Some ls) ts flag \<and> ls \<noteq> []
           \<and> map_of (items (config a)) ''function_name'' = Some fn
           \<and> send_logs p = SendReturns b" for ls ts flag fn b
  proof -
    have c: "map_of (items (config (sleep ad a1))) ''function_name'' = Some fn"
      "self_last_timestamp (sleep ad a1) = last_timestamp (config a)"
      using i h by (simp_all add: mark_running_def)
    from h do_gather_full_cycle [of p ls ts flag "sleep ad a1" fn b] c obtain a3 where
      d: "do_gather p (sleep ad a1) = (Inr (), a3)" and
      t: "trace a3 = trace (sleep ad a1) @ [Fetch, Deliver fn ls (SendReturns b),
                        SaveTimestamp (assign ts (last_timestamp (config a)))]"
      by auto
    from gather_protected_do_gather [OF gp] d have "a2 = a3" by auto
    with t e(1) show ?thesis by (auto simp: sleep_trace)
  qed
  have pre: "\<exists>rest. trace a' = trace a2 @ rest"
    if g: "gather ad (p # ps) a = Some (res, a')" for res a'
  proof -
    from g assms obtain r' a3 where
      l: "gather_loop ad (p # ps) a1 = Some (r', a3)" and
      a': "a' = a3 \<or> a' = finalize a3"
      by (auto simp: gather_def split: option.splits sum.splits)
    from gather_loop_first_poll [OF l gp] obtain rest where
      "trace a3 = trace a2 @ rest" by blast
    with a' show ?thesis by (auto simp: finalize_def Let_def)
  qed
  have ret: "gather ad (p # ps) a \<noteq> None" if "0 \<le> timeit p \<and> remaining_ms p \<le> 0"
  proof -
    from that have "\<not> fits_budget ad p" by (simp add: no_budget_no_fit)
    from gather_loop_no_fit [OF this] have "gather_loop ad (p # ps) a1 \<noteq> None" .
    with assms show ?thesis by (auto simp: gather_def split: option.splits sum.splits)
  qed
  from gp e ign full pre ret show ?thesis by blast
qed

theorem first_poll_runs_before_budget_check_witness:
  "initialize example_adapter (app_init (example_config Idle full_auth)) = (Inr True, started_app)
   \<and> remaining_ms no_time_left < 0
   \<and> 0 \<le> timeit no_time_left
   \<and> gather example_adapter [no_time_left] (app_init (example_config Idle full_auth))
      = Some (Inr (),
         \<lparr>config = (example_config Succeeded full_auth)\<lparr>last_timestamp := 200\<rparr>,
          gathered_log_count = 1, more_to_poll = True, poll_count = 1, self_last_timestamp = 200,
          trace = [MarkRunning, Fetch, Deliver (Str ''rule_processor'') [''r1''] (SendReturns True),
                   SaveTimestamp 200, QueryRemaining, MarkSuccess, SaveTimestamp 200]\<rparr>)"
proof -
  have r: "remaining_ms no_time_left < 0" "0 \<le> timeit no_time_left"
    by (simp_all add: no_time_left_def example_poll_def)
  from first_poll_runs_before_budget_check [OF initialize_example, of no_time_left "- 5" "[]"]
    initialize_example r run_no_time_left
  show ?thesis by simp
qed

text \<open>
  C3. The value \<open>_gather\<close> returns is the measured time \<open>d\<close> times the multiplier 1.2,
  in \<open>Decimal\<close> and back to \<open>float\<close>; the projected cost adds the seconds \<open>t\<close> to sleep.
  When the projected cost is not strictly below the remaining seconds the loop ends
  after this poll. For a measured time that is not negative the projected cost is the
  exact \<open>d * 1.2 + t\<close> up to rounding, a relative \<open>2 ^ -49\<close>. For the float 0.01 and five
  seconds it is the float 5.012, and with 5000 milliseconds left the loop ends.
\<close>

theorem projected_cost_decides_next_poll:
  assumes "gather_protected ad p a = (Inr g, a1)"
  shows "g = to_float (decimal_mul (timeit p) POLL_BUFFER_MULTIPLIER)
       \<and> projected_cost ad g = float_add g (float_of_int (int (sleep_seconds ad)))
       \<and> (\<not> projected_cost ad g < remaining_seconds p \<longrightarrow>
            gather_loop ad (p # ps) a = Some (Inr (), a1\<lparr>trace := trace a1 @ [QueryRemaining]\<rparr>))
       \<and> (0 \<le> timeit p \<longrightarrow>
            \<bar>projected_cost ad g - (timeit p * (6 / 5) + of_nat (sleep_seconds ad))\<bar>
              \<le> (timeit p * (6 / 5) + of_nat (sleep_seconds ad)) / 2 ^ 49 + 1 / 2 ^ 1073)
       \<and> (timeit p = to_float (1 / 100) \<and> sleep_seconds ad = 5 \<longrightarrow>
            projected_cost ad g = to_float (5012 / 1000))
       \<and> (timeit p = to_float (1 / 100) \<and> sleep_seconds ad = 5 \<and> remaining_ms p = 5000 \<longrightarrow>
            remaining_seconds p = 5
            \<and> gather_loop ad (p # ps) a = Some (Inr (), a1\<lparr>trace := trace a1 @ [QueryRemaining]\<rparr>))"
proof -
  from assms have g: "g = to_float (decimal_mul (timeit p) POLL_BUFFER_MULTIPLIER)"
    by (simp add: gather_protected_returns)
  have stop: "gather_loop ad (p # ps) a = Some (Inr (), a1\<lparr>trace := trace a1 @ [QueryRemaining]\<rparr>)"
    if "\<not> projected_cost ad g < remaining_seconds p"
    using gather_loop_stop [OF assms, of ps] that by simp
  have ex: "projected_cost ad g = to_float (5012 / 1000)"
    if "timeit p = to_float (1 / 100) \<and> sleep_seconds ad = 5"
  proof -
    have "projected_cost ad g = projected_cost example_adapter g"
      using that by (simp add: projected_cost_def example_adapter_def)
    with g that cost_example show ?thesis by simp
  qed
  have ex2: "remaining_seconds p = 5
            \<and> gather_loop ad (p # ps) a = Some (Inr (), a1\<lparr>trace := trace a1 @ [QueryRemaining]\<rparr>)"
    if h: "timeit p = to_float (1 / 100) \<and> sleep_seconds ad = 5 \<and> remaining_ms p = 5000"
  proof -
    from h have r: "remaining_seconds p = 5" by (simp add: remaining_seconds_def remaining_5000)
    from h ex have "projected_cost ad g = to_float (5012 / 1000)" by blast
    then have c: "projected_cost ad g = 5643010333095231 / 1125899906842624"
      by (simp only: float_5012)
    have "\<not> (5643010333095231 / 1125899906842624 :: rat) < 5" by simp
    then have "\<not> projected_cost ad g < remaining_seconds p" unfolding c r .
    with stop r show ?thesis by simp
  qed
  have acc: "\<bar>projected_cost ad g - (timeit p * (6 / 5) + of_nat (sleep_seconds ad))\<bar>
              \<le> (timeit p * (6 / 5) + of_nat (sleep_seconds ad)) / 2 ^ 49 + 1 / 2 ^ 1073"
    if "0 \<le> timeit p"
    unfolding g using that by (rule projected_cost_accuracy)
  have def: "projected_cost ad g = float_add g (float_of_int (int (sleep_seconds ad)))"
    by (simp add: projected_cost_def)
  from g def stop acc ex ex2 show ?thesis by blast
qed

theorem projected_cost_decides_next_poll_witness:
  "gather_protected example_adapter spec_timing started_app
     = (Inr (3458764513820541 / 288230376151711744), after_spec_timing)
   \<and> timeit spec_timing = to_float (1 / 100)
   \<and> 0 \<le> timeit spec_timing
   \<and> sleep_seconds example_adapter = 5
   \<and> remaining_ms spec_timing = 5000
   \<and> projected_cost example_adapter (3458764513820541 / 288230376151711744)
       = to_float (5012 / 1000)
   \<and> remaining_seconds spec_timing = 5
   \<and> more_to_poll after_spec_timing
   \<and> gather_loop example_adapter [spec_timing, last_page] started_app
       = Some (Inr (), after_spec_timing\<lparr>trace := trace after_spec_timing @ [QueryRemaining]\<rparr>)"
proof -
  have m: "more_to_poll after_spec_timing" by (simp add: after_spec_timing_def)
  note t = projected_cost_decides_next_poll [OF gather_protected_spec_timing, of "[last_page]"]
  from t spec_timing_facts
  have c: "projected_cost example_adapter (3458764513820541 / 288230376151711744)
             = to_float (5012 / 1000)"
    by blast
  from t spec_timing_facts
  have l: "remaining_seconds spec_timing = 5
     \<and> gather_loop example_adapter [spec_timing, last_page] started_app
       = Some (Inr (), after_spec_timing\<lparr>trace := trace after_spec_timing @ [QueryRemaining]\<rparr>)"
    by blast
  have p: "0 \<le> timeit spec_timing"
    unfolding spec_timing_facts(1) by (rule to_float_nonneg) simp
  from gather_protected_spec_timing spec_timing_facts c l m p show ?thesis by blast
qed

section \<open>The throttle\<close>

text \<open>
  C7. \<open>_sleep\<close> tells the first poll by \<open>self._poll_count == 0\<close>, and \<open>do_gather\<close> returns
  before it counts a poll that brought no logs. A first poll that returns an empty page
  and asks for more is therefore followed by a second poll with no sleep before it,
  though the subclass asks for five seconds.
\<close>

theorem no_sleep_after_empty_first_poll:
  "gather example_adapter
     [example_poll (FetchReturns (Some []) None (Some True)) (SendReturns True) 0 60000,
      example_poll (FetchReturns (Some [''r1'']) (Some 200) None) (SendReturns True) 0 60000]
     (app_init (example_config Idle full_auth))
   = Some (Inr (),
       \<lparr>config = (example_config Succeeded full_auth)\<lparr>last_timestamp := 200\<rparr>,
        gathered_log_count = 1, more_to_poll = False, poll_count = 1, self_last_timestamp = 200,
        trace = [MarkRunning, Fetch, QueryRemaining,
                 Fetch, Deliver (Str ''rule_processor'') [''r1''] (SendReturns True),
                 SaveTimestamp 200, QueryRemaining, MarkSuccess, SaveTimestamp 200]\<rparr>)"
  by code_simp

text \<open>
  What does hold: the first poll of a fresh object is not preceded by a sleep, and once
  a poll has brought logs every later poll of the object is preceded by one.
\<close>

lemma first_poll_of_fresh_object_does_not_sleep:
  assumes "initialize ad (app_init c) = (Inr True, a1)" and "gather_protected ad p a1 = (r, a2)"
  shows "\<exists>evs. trace a2 = [MarkRunning, Fetch] @ evs \<and> (\<forall>n. Sleep n \<notin> set evs)"
proof -
  from initialize_started [OF assms(1)]
  have a1: "trace a1 = [MarkRunning]" "poll_count a1 = 0" by (simp_all add: app_init_def)
  then have s: "sleep ad a1 = a1" by (simp add: sleep_def)
  from gather_protected_do_gather [OF assms(2)] s obtain r' where
    "do_gather p a1 = (r', a2)" by auto
  from do_gather_effect [OF this] a1 show ?thesis by auto
qed

lemma sleep_once_a_poll_brought_logs:
  "0 < poll_count a \<Longrightarrow> trace (sleep ad a) = trace a @ [Sleep (sleep_seconds ad)]"
  by (simp add: sleep_def)

lemma sleep_after_poll_with_logs:
  "gather example_adapter
     [example_poll (FetchReturns (Some [''r0'']) (Some 150) (Some True)) (SendReturns True) 0 60000,
      example_poll (FetchReturns (Some [''r1'']) (Some 200) None) (SendReturns True) 0 60000]
     (app_init (example_config Idle full_auth))
   = Some (Inr (),
       \<lparr>config = (example_config Succeeded full_auth)\<lparr>last_timestamp := 200\<rparr>,
        gathered_log_count = 2, more_to_poll = False, poll_count = 2, self_last_timestamp = 200,
        trace = [MarkRunning, Fetch, Deliver (Str ''rule_processor'') [''r0''] (SendReturns True),
                 SaveTimestamp 150, QueryRemaining, Sleep 5,
                 Fetch, Deliver (Str ''rule_processor'') [''r1''] (SendReturns True),
                 SaveTimestamp 200, QueryRemaining, MarkSuccess, SaveTimestamp 200]\<rparr>)"
  by code_simp

end
